theory Spec2Isabelle
  imports Main "HOL-Library.AList" "HOL-Library.Sublist"
begin

section \<open>Python values and dictionaries\<close>

text \<open>
  The rows that the external collaborator returns are loosely typed dictionaries with
  string keys. Their values are the scalars of decoded JSON: \<open>None\<close>, booleans,
  integers and strings. Strings are sequences of code points below 256.
\<close>

datatype pyval = PNone | PBool bool | PInt int | PStr string

type_synonym row = "(string \<times> pyval) list"

text \<open>Truth value testing (\<open>if v:\<close>, \<open>not v\<close>, \<open>a or b\<close>).\<close>

fun truthy :: "pyval \<Rightarrow> bool" where
  "truthy PNone = False"
| "truthy (PBool b) = b"
| "truthy (PInt i) = (i \<noteq> 0)"
| "truthy (PStr s) = (s \<noteq> [])"

definition py_or :: "pyval \<Rightarrow> pyval \<Rightarrow> pyval" where
  "py_or a b = (if truthy a then a else b)"

text \<open>\<open>==\<close> on scalars: \<open>True == 1\<close> and \<open>False == 0\<close> hold in Python.\<close>

fun py_eq :: "pyval \<Rightarrow> pyval \<Rightarrow> bool" where
  "py_eq (PBool b) (PInt i) = (i = (if b then 1 else 0))"
| "py_eq (PInt i) (PBool b) = (i = (if b then 1 else 0))"
| "py_eq a b = (a = b)"

text \<open>\<open>v in s\<close> for a set \<open>s\<close> of scalars, kept as the list of its elements.\<close>

definition py_in :: "pyval \<Rightarrow> pyval list \<Rightarrow> bool" where
  "py_in v xs = list_ex (py_eq v) xs"

text \<open>\<open>d.get(k)\<close>, \<open>d.get(k, default)\<close> and \<open>k in d\<close>.\<close>

definition dget :: "row \<Rightarrow> string \<Rightarrow> pyval" where
  "dget d k = (case map_of d k of None \<Rightarrow> PNone | Some v \<Rightarrow> v)"

definition dget_default :: "row \<Rightarrow> string \<Rightarrow> pyval \<Rightarrow> pyval" where
  "dget_default d k dflt = (case map_of d k of None \<Rightarrow> dflt | Some v \<Rightarrow> v)"

definition has_key :: "row \<Rightarrow> string \<Rightarrow> bool" where
  "has_key d k = (map_of d k \<noteq> None)"

section \<open>Exceptions\<close>

text \<open>
  Every exception the modelled code can meet. \<open>UpstreamError\<close> is whatever a method of
  the external collaborator raises; \<open>ValidationError\<close> names the pydantic model that
  rejected its input.
\<close>

datatype exn =
    AttributeError string
  | KeyError string
  | TypeError string
  | ValidationError string
  | HTTPException int string
  | UpstreamError string

fun bindE :: "exn + 'a \<Rightarrow> ('a \<Rightarrow> exn + 'b) \<Rightarrow> exn + 'b" where
  "bindE (Inl e) f = Inl e"
| "bindE (Inr x) f = f x"

text \<open>A list comprehension or \<open>for\<close> loop whose body may raise: the first exception ends it.\<close>

fun mapE :: "('a \<Rightarrow> exn + 'b) \<Rightarrow> 'a list \<Rightarrow> exn + 'b list" where
  "mapE f [] = Inr []"
| "mapE f (x # xs) =
     (case f x of
        Inl e \<Rightarrow> Inl e
      | Inr y \<Rightarrow> (case mapE f xs of Inl e \<Rightarrow> Inl e | Inr ys \<Rightarrow> Inr (y # ys)))"

section \<open>Pydantic models\<close>

text \<open>
  \<open>Model(**d).model_dump()\<close>: every declared field is validated, undeclared keys are
  ignored, and the dump lists the declared fields in their order. A \<open>str\<close> field
  accepts a string and nothing else. A field declared \<open>T | None = None\<close> may be
  missing or \<open>None\<close>. What pydantic's lax mode accepts for an \<open>int\<close> or a \<open>bool\<close>
  field belongs to the library: it is the parameter \<open>lax\<close>, giving the converted
  value or \<open>None\<close> for a rejected one.
\<close>

datatype ftype = TStr | TInt | TBool

type_synonym lax = "ftype \<Rightarrow> pyval \<Rightarrow> pyval option"

type_synonym schema = "(string \<times> ftype \<times> bool) list"

fun validate_field :: "lax \<Rightarrow> ftype \<Rightarrow> bool \<Rightarrow> pyval option \<Rightarrow> pyval option" where
  "validate_field lx t required None = (if required then None else Some PNone)"
| "validate_field lx t required (Some PNone) = (if required then None else Some PNone)"
| "validate_field lx TStr required (Some (PStr s)) = Some (PStr s)"
| "validate_field lx TStr required (Some v) = None"
| "validate_field lx t required (Some v) = lx t v"

definition model_dump :: "lax \<Rightarrow> string \<Rightarrow> schema \<Rightarrow> row \<Rightarrow> exn + row" where
  "model_dump lx name sch d =
     (case those (map (\<lambda>(k, t, required).
                    map_option (Pair k) (validate_field lx t required (map_of d k))) sch) of
        None \<Rightarrow> Inl (ValidationError name)
      | Some r \<Rightarrow> Inr r)"

section \<open>The external collaborator\<close>

text \<open>
  The client object, at the type of its contract: each table method either raises or
  returns a sequence of rows. \<open>resolve_host_info\<close> is optional (\<open>hasattr\<close>); its answer
  is a dictionary whose values are scalars or nested dictionaries.
\<close>

datatype jval = JAtom pyval | JDict row

type_synonym jdict = "(string \<times> jval) list"

record client =
  get_dhcpv4_leases :: "exn + row list"
  get_dhcpv6_leases :: "exn + row list"
  get_arp_table :: "exn + row list"
  get_ndp_table :: "exn + row list"
  resolve_host_info :: "(string \<Rightarrow> exn + jdict) option"
  get_system_status :: "exn + jdict"

section \<open>tools/dhcp.py\<close>

definition DHCPLease :: schema where
  "DHCPLease =
     [(''ip'', TStr, True), (''mac'', TStr, True), (''hostname'', TStr, False),
      (''start'', TStr, False), (''end'', TStr, False), (''online'', TBool, False),
      (''lease_type'', TStr, False), (''description'', TStr, False),
      (''actual_status'', TStr, False)]"

record dhcp_response =
  dhcpv4 :: "row list"
  dhcpv6 :: "row list"
  status :: string
  dhcp_status :: "string option"

text \<open>\<open>entry["ip"] = entry.pop("address")\<close> when only \<open>address\<close> is there.\<close>

definition normalize_lease_entry :: "row \<Rightarrow> row" where
  "normalize_lease_entry entry =
     (if has_key entry ''address'' \<and> \<not> has_key entry ''ip''
      then AList.update ''ip'' (dget entry ''address'') (AList.delete ''address'' entry)
      else entry)"

text \<open>The sets \<open>{entry.get(k) for entry in table if entry.get(k)}\<close>.\<close>

definition neighbor_set :: "string \<Rightarrow> row list \<Rightarrow> pyval list" where
  "neighbor_set k table = map (\<lambda>entry. dget entry k) (filter (\<lambda>entry. truthy (dget entry k)) table)"

text \<open>The body of either lease loop, up to the assignment of \<open>actual_status\<close>.\<close>

definition actual_status :: "pyval list \<Rightarrow> pyval list \<Rightarrow> row \<Rightarrow> string" where
  "actual_status nb_ips nb_macs normalized =
     (let ip = dget normalized ''ip'';
          mac = dget normalized ''mac'';
          is_in_table = (py_in ip nb_ips \<or> py_in mac nb_macs);
          dhcp_status = dget_default normalized ''online'' (PBool False)
      in if is_in_table then ''Online''
         else (if truthy dhcp_status then ''Online'' else ''Offline''))"

definition lease_entry :: "lax \<Rightarrow> pyval list \<Rightarrow> pyval list \<Rightarrow> row \<Rightarrow> exn + row" where
  "lease_entry lx nb_ips nb_macs entry =
     (let normalized = normalize_lease_entry entry;
          normalized = AList.update ''actual_status''
                         (PStr (actual_status nb_ips nb_macs normalized)) normalized
      in model_dump lx ''DHCPLease'' DHCPLease normalized)"

definition DHCPTool_get_dummy_data :: dhcp_response where
  "DHCPTool_get_dummy_data =
     \<lparr>dhcpv4 =
        [[(''ip'', PStr ''192.168.1.100''), (''mac'', PStr ''00:11:22:33:44:55''),
          (''hostname'', PStr ''dummy-client''), (''start'', PStr ''2025-01-01T00:00:00''),
          (''end'', PStr ''2025-01-01T12:00:00''), (''online'', PBool True),
          (''actual_status'', PStr ''Online''), (''lease_type'', PStr ''dynamic''),
          (''description'', PStr ''Dummy lease entry'')]],
      dhcpv6 =
        [[(''ip'', PStr ''2001:db8::100''), (''mac'', PStr ''00:11:22:33:44:66''),
          (''hostname'', PStr ''dummy6-client''), (''start'', PStr ''2025-01-01T00:00:00''),
          (''end'', PStr ''2025-01-01T12:00:00''), (''online'', PBool True),
          (''actual_status'', PStr ''Online''), (''lease_type'', PStr ''dynamic''),
          (''description'', PStr ''Dummy DHCPv6 lease entry'')]],
      status = ''dummy'',
      dhcp_status = None\<rparr>"

text \<open>
  The \<open>try\<close> block of \<open>DHCPTool.execute\<close> for a client that is there. The test
  \<open>leases_v4 is None and leases_v6 is None\<close> cannot succeed after both loops ran, so
  its branch is not a case of the model.
\<close>

definition DHCPTool_try :: "lax \<Rightarrow> client \<Rightarrow> exn + dhcp_response" where
  "DHCPTool_try lx c =
     bindE (get_dhcpv4_leases c) (\<lambda>leases_v4.
     bindE (get_dhcpv6_leases c) (\<lambda>leases_v6.
     bindE (get_arp_table c) (\<lambda>arp_data.
     bindE (get_ndp_table c) (\<lambda>ndp_data.
       let arp_ips = neighbor_set ''ip'' arp_data;
           arp_macs = neighbor_set ''mac'' arp_data;
           ndp_ips = neighbor_set ''ip'' ndp_data;
           ndp_macs = neighbor_set ''mac'' ndp_data
       in
     bindE (mapE (lease_entry lx arp_ips arp_macs) leases_v4) (\<lambda>lease_entries_v4.
     bindE (mapE (lease_entry lx ndp_ips ndp_macs) leases_v6) (\<lambda>lease_entries_v6.
       Inr \<lparr>dhcpv4 = lease_entries_v4,
            dhcpv6 = lease_entries_v6,
            status = ''success'',
            dhcp_status = Some
              (if lease_entries_v4 = [] \<and> lease_entries_v6 = []
               then ''No DHCP leases found. Check DHCP server status, configuration, and API permissions.''
               else ''OK'')\<rparr>))))))"

text \<open>
  \<open>DHCPTool.execute(params)\<close>: \<open>estr\<close> is \<open>str(e)\<close>, the interpreter's rendering
  of an exception.
\<close>

definition DHCPTool_execute :: "(exn \<Rightarrow> string) \<Rightarrow> lax \<Rightarrow> client option \<Rightarrow> row \<Rightarrow> dhcp_response" where
  "DHCPTool_execute estr lx cl params =
     (case cl of
        None \<Rightarrow> DHCPTool_get_dummy_data
      | Some c \<Rightarrow>
          (case DHCPTool_try lx c of
             Inl e \<Rightarrow> \<lparr>dhcpv4 = [], dhcpv6 = [], status = ''error'',
                       dhcp_status = Some (''Error retrieving DHCP leases: '' @ estr e)\<rparr>
           | Inr r \<Rightarrow> r))"


section \<open>Strings\<close>

text \<open>
  \<open>str.isspace\<close>, \<open>str.strip()\<close>, \<open>str.lower()\<close>, \<open>str(v)\<close> and the substring
  test \<open>q in s\<close>, on code points below 256.
\<close>

definition is_space :: "char \<Rightarrow> bool" where
  "is_space ch = ((of_char ch :: nat) \<in> {9, 10, 11, 12, 13, 28, 29, 30, 31, 32, 133, 160})"

definition py_strip :: "string \<Rightarrow> string" where
  "py_strip s = rev (dropWhile is_space (rev (dropWhile is_space s)))"

definition lower_char :: "char \<Rightarrow> char" where
  "lower_char ch =
     (let n = (of_char ch :: nat)
      in if (65 \<le> n \<and> n \<le> 90) \<or> (192 \<le> n \<and> n \<le> 222 \<and> n \<noteq> 215)
         then char_of (n + 32) else ch)"

definition py_lower :: "string \<Rightarrow> string" where
  "py_lower s = map lower_char s"

fun py_contains :: "string \<Rightarrow> string \<Rightarrow> bool" where
  "py_contains q [] = (q = [])"
| "py_contains q (ch # s) = (prefix q (ch # s) \<or> py_contains q s)"

fun digits :: "nat \<Rightarrow> string" where
  "digits n = (if n < 10 then [char_of (48 + n)] else digits (n div 10) @ [char_of (48 + n mod 10)])"

declare digits.simps [simp del]

fun py_str :: "pyval \<Rightarrow> string" where
  "py_str PNone = ''None''"
| "py_str (PBool b) = (if b then ''True'' else ''False'')"
| "py_str (PInt i) = (if i < 0 then CHR ''-'' # digits (nat (- i)) else digits (nat i))"
| "py_str (PStr s) = s"

text \<open>\<open>v.lower()\<close> and \<open>v.strip()\<close> on a value that need not be a string.\<close>

fun str_lower :: "pyval \<Rightarrow> exn + string" where
  "str_lower (PStr s) = Inr (py_lower s)"
| "str_lower v = Inl (AttributeError ''lower'')"

fun str_strip :: "pyval \<Rightarrow> exn + string" where
  "str_strip (PStr s) = Inr (py_strip s)"
| "str_strip v = Inl (AttributeError ''strip'')"

section \<open>Values that may be dictionaries\<close>

fun jtruthy :: "jval \<Rightarrow> bool" where
  "jtruthy (JAtom v) = truthy v"
| "jtruthy (JDict d) = (d \<noteq> [])"

definition jor :: "jval \<Rightarrow> jval \<Rightarrow> jval" where
  "jor a b = (if jtruthy a then a else b)"

definition jget :: "jdict \<Rightarrow> string \<Rightarrow> jval" where
  "jget d k = (case map_of d k of None \<Rightarrow> JAtom PNone | Some v \<Rightarrow> v)"

definition jget_default :: "jdict \<Rightarrow> string \<Rightarrow> jval \<Rightarrow> jval" where
  "jget_default d k dflt = (case map_of d k of None \<Rightarrow> dflt | Some v \<Rightarrow> v)"

section \<open>tools/arp.py\<close>

definition ARPEntry :: schema where
  "ARPEntry =
     [(''mac'', TStr, True), (''ip'', TStr, True), (''intf'', TStr, True),
      (''manufacturer'', TStr, False), (''hostname'', TStr, False), (''expires'', TInt, False),
      (''permanent'', TBool, False), (''type'', TStr, False), (''description'', TStr, False),
      (''dhcp_status'', TStr, False)]"

record arp_response =
  arp :: "row list"
  ndp :: "row list"
  arp_status :: string

text \<open>
  \<open>dhcp_ip_map\<close> is keyed by whatever truthy value a lease has as its address, so its
  keys are compared with \<open>==\<close>; \<open>dhcp_mac_map\<close> is keyed by lower-cased strings.
\<close>

type_synonym ip_map = "(pyval \<times> row) list"
type_synonym mac_map = "(string \<times> row) list"

fun pd_lookup :: "ip_map \<Rightarrow> pyval \<Rightarrow> row option" where
  "pd_lookup [] k = None"
| "pd_lookup ((k', v) # m) k = (if py_eq k' k then Some v else pd_lookup m k)"

fun pd_update :: "pyval \<Rightarrow> row \<Rightarrow> ip_map \<Rightarrow> ip_map" where
  "pd_update k v [] = [(k, v)]"
| "pd_update k v ((k', v') # m) = (if py_eq k' k then (k', v) # m else (k', v') # pd_update k v m)"

text \<open>The body of the two loops that fill the lookup dictionaries.\<close>

definition index_lease :: "row \<Rightarrow> ip_map \<times> mac_map \<Rightarrow> exn + ip_map \<times> mac_map" where
  "index_lease lease maps =
     (let ip = py_or (dget lease ''ip'') (dget lease ''address'');
          mac = dget lease ''mac'';
          dhcp_ip_map = (if truthy ip then pd_update ip lease (fst maps) else fst maps)
      in if truthy mac
         then bindE (str_lower mac) (\<lambda>m. Inr (dhcp_ip_map, AList.update m lease (snd maps)))
         else Inr (dhcp_ip_map, snd maps))"

fun index_leases :: "row list \<Rightarrow> ip_map \<times> mac_map \<Rightarrow> exn + ip_map \<times> mac_map" where
  "index_leases [] maps = Inr maps"
| "index_leases (lease # leases) maps = bindE (index_lease lease maps) (index_leases leases)"

text \<open>
  \<open>_fill_manufacturer_and_dhcp\<close>. The vendor table is not part of these sources:
  \<open>oui\<close> is \<open>oui_lookup.lookup\<close>.
\<close>

definition fill_manufacturer_and_dhcp ::
  "(pyval \<Rightarrow> pyval) \<Rightarrow> row \<Rightarrow> ip_map \<Rightarrow> mac_map \<Rightarrow> exn + row" where
  "fill_manufacturer_and_dhcp oui entry dhcp_ip_map dhcp_mac_map =
     (let entry =
            (if \<not> truthy (dget entry ''manufacturer'') \<and> truthy (dget entry ''mac'')
             then AList.update ''manufacturer'' (py_or (oui (dget entry ''mac'')) (PStr [])) entry
             else entry);
          ip = dget entry ''ip''
      in bindE (if truthy (dget entry ''mac'')
                then bindE (str_lower (dget_default entry ''mac'' (PStr []))) (\<lambda>m. Inr (Some m))
                else Inr None) (\<lambda>mac.
         let dhcp_info =
               (if truthy ip \<and> pd_lookup dhcp_ip_map ip \<noteq> None then pd_lookup dhcp_ip_map ip
                else (case mac of
                        None \<Rightarrow> None
                      | Some m \<Rightarrow> if m \<noteq> [] \<and> map_of dhcp_mac_map m \<noteq> None
                                  then map_of dhcp_mac_map m else None))
         in Inr (case dhcp_info of
                   None \<Rightarrow> entry
                 | Some info \<Rightarrow>
                     if info = [] then entry
                     else
                       (let name = py_or (dget info ''hostname'') (dget info ''client-hostname'');
                            entry = (if \<not> truthy (dget entry ''hostname'') \<and> truthy name
                                     then AList.update ''hostname'' name entry else entry)
                        in AList.update ''dhcp_status''
                             (PStr (if truthy (dget info ''online'') then ''Online'' else ''Offline''))
                             entry))))"

text \<open>\<open>_fill_manufacturer_and_dhcp(ARPEntry(**entry).model_dump(), ...)\<close>.\<close>

definition arp_entry :: "(pyval \<Rightarrow> pyval) \<Rightarrow> lax \<Rightarrow> ip_map \<Rightarrow> mac_map \<Rightarrow> row \<Rightarrow> exn + row" where
  "arp_entry oui lx dhcp_ip_map dhcp_mac_map entry =
     bindE (model_dump lx ''ARPEntry'' ARPEntry entry)
       (\<lambda>dumped. fill_manufacturer_and_dhcp oui dumped dhcp_ip_map dhcp_mac_map)"

text \<open>
  The identifiers taken from the answer of \<open>resolve_host_info\<close>: \<open>s.add(v)\<close> raises
  for a dictionary, \<open>.get\<close> on a scalar raises.
\<close>

definition add_if_truthy :: "jval \<Rightarrow> pyval list \<Rightarrow> exn + pyval list" where
  "add_if_truthy v s =
     (if jtruthy v
      then (case v of JAtom a \<Rightarrow> Inr (s @ [a]) | JDict d \<Rightarrow> Inl (TypeError ''unhashable type''))
      else Inr s)"

definition resolved_from_lease :: "jval \<Rightarrow> pyval list \<Rightarrow> exn + pyval list" where
  "resolved_from_lease v s =
     (if jtruthy v
      then (case v of
              JAtom a \<Rightarrow> Inl (AttributeError ''get'')
            | JDict dhcp \<Rightarrow>
                (let ip = py_or (dget dhcp ''ip'') (dget dhcp ''address'');
                     mac = dget dhcp ''mac'';
                     name = py_or (dget dhcp ''hostname'') (dget dhcp ''client-hostname'')
                 in Inr (s @ (if truthy ip then [ip] else []) @ (if truthy mac then [mac] else [])
                           @ (if truthy name then [name] else []))))
      else Inr s)"

definition resolved_identifiers :: "jdict \<Rightarrow> exn + pyval list" where
  "resolved_identifiers info =
     bindE (add_if_truthy (jget info ''ip'') []) (\<lambda>s.
     bindE (add_if_truthy (jget info ''mac'') s) (\<lambda>s.
     bindE (add_if_truthy (jget info ''hostname'') s) (\<lambda>s.
       resolved_from_lease (jget info ''dhcpv4'') s)))"

text \<open>\<open>all_queries\<close>: the raw query and the resolved identifiers, lower-cased.\<close>

definition all_queries :: "client \<Rightarrow> string \<Rightarrow> exn + string list" where
  "all_queries c search_query =
     bindE (case resolve_host_info c of
              None \<Rightarrow> Inr []
            | Some resolve \<Rightarrow> bindE (resolve search_query) resolved_identifiers) (\<lambda>resolved.
       mapE str_lower (filter truthy (PStr search_query # resolved)))"

definition match_any :: "string list \<Rightarrow> row \<Rightarrow> bool" where
  "match_any queries entry =
     list_ex (\<lambda>q. py_contains q (py_lower (py_str (dget_default entry ''ip'' (PStr []))))
                \<or> py_contains q (py_lower (py_str (dget_default entry ''mac'' (PStr []))))
                \<or> py_contains q (py_lower (py_str (dget_default entry ''hostname'' (PStr [])))))
       queries"

text \<open>A filtering comprehension whose test may raise.\<close>

fun filterE :: "('a \<Rightarrow> exn + bool) \<Rightarrow> 'a list \<Rightarrow> exn + 'a list" where
  "filterE p [] = Inr []"
| "filterE p (x # xs) =
     (case p x of
        Inl e \<Rightarrow> Inl e
      | Inr b \<Rightarrow> (case filterE p xs of Inl e \<Rightarrow> Inl e | Inr ys \<Rightarrow> Inr (if b then x # ys else ys)))"

definition mac_equals :: "string \<Rightarrow> row \<Rightarrow> exn + bool" where
  "mac_equals mac_filter entry =
     bindE (str_lower (dget_default entry ''mac'' (PStr []))) (\<lambda>m. Inr (m = mac_filter))"

definition ip_equals :: "pyval \<Rightarrow> row \<Rightarrow> bool" where
  "ip_equals ip_filter entry = py_eq (dget_default entry ''ip'' (PStr [])) ip_filter"

definition ARPTool_get_dummy_data :: arp_response where
  "ARPTool_get_dummy_data =
     \<lparr>arp = [[(''ip'', PStr ''192.168.1.1''), (''mac'', PStr ''aa:bb:cc:dd:ee:ff''),
              (''intf'', PStr ''em0''), (''manufacturer'', PStr ''TestCorp''),
              (''dhcp_status'', PStr ''Online'')]],
      ndp = [[(''ip'', PStr ''fe80::1''), (''mac'', PStr ''aa:bb:cc:dd:ee:ff''),
              (''intf'', PStr ''em0''), (''manufacturer'', PStr ''TestCorp''),
              (''dhcp_status'', PStr ''Online'')]],
      arp_status = ''success''\<rparr>"

text \<open>
  The three places that fetch both tables and build the entries: the wildcard branch
  and the path without a search enrich every row; the search branch validates and
  enriches only the rows that \<open>match_any\<close> keeps.
\<close>

definition full_tables ::
  "(pyval \<Rightarrow> pyval) \<Rightarrow> lax \<Rightarrow> client \<Rightarrow> ip_map \<Rightarrow> mac_map \<Rightarrow> exn + row list \<times> row list" where
  "full_tables oui lx c dhcp_ip_map dhcp_mac_map =
     bindE (get_arp_table c) (\<lambda>arp_data.
     bindE (get_ndp_table c) (\<lambda>ndp_data.
     bindE (mapE (arp_entry oui lx dhcp_ip_map dhcp_mac_map) arp_data) (\<lambda>arp_entries.
     bindE (mapE (arp_entry oui lx dhcp_ip_map dhcp_mac_map) ndp_data) (\<lambda>ndp_entries.
       Inr (arp_entries, ndp_entries)))))"

definition matching_tables ::
  "(pyval \<Rightarrow> pyval) \<Rightarrow> lax \<Rightarrow> client \<Rightarrow> ip_map \<Rightarrow> mac_map \<Rightarrow> string list
     \<Rightarrow> exn + row list \<times> row list" where
  "matching_tables oui lx c dhcp_ip_map dhcp_mac_map queries =
     bindE (get_arp_table c) (\<lambda>arp_data.
     bindE (get_ndp_table c) (\<lambda>ndp_data.
     bindE (mapE (arp_entry oui lx dhcp_ip_map dhcp_mac_map)
              (filter (match_any queries) arp_data)) (\<lambda>arp_entries.
     bindE (mapE (arp_entry oui lx dhcp_ip_map dhcp_mac_map)
              (filter (match_any queries) ndp_data)) (\<lambda>ndp_entries.
       Inr (arp_entries, ndp_entries)))))"

definition success :: "row list \<times> row list \<Rightarrow> arp_response" where
  "success tables = \<lparr>arp = fst tables, ndp = snd tables, arp_status = ''success''\<rparr>"

text \<open>The standalone filters, applied when there is no search.\<close>

definition apply_filters :: "row \<Rightarrow> row list \<times> row list \<Rightarrow> exn + row list \<times> row list" where
  "apply_filters params tables =
     (let mac_filter = dget params ''mac'';
          ip_filter = dget params ''ip'';
          ipv6_filter = dget params ''ipv6''
      in bindE (if truthy mac_filter
                then bindE (str_lower mac_filter) (\<lambda>mac_filter.
                     bindE (filterE (mac_equals mac_filter) (fst tables)) (\<lambda>arp_entries.
                     bindE (filterE (mac_equals mac_filter) (snd tables)) (\<lambda>ndp_entries.
                       Inr (arp_entries, ndp_entries))))
                else Inr tables) (\<lambda>(arp_entries, ndp_entries).
           Inr (if truthy ip_filter then filter (ip_equals ip_filter) arp_entries else arp_entries,
                if truthy ipv6_filter then filter (ip_equals ipv6_filter) ndp_entries
                else ndp_entries)))"

text \<open>
  The \<open>try\<close> block of \<open>ARPTool.execute\<close> for a client that is there, in its two
  parts: the lookup dictionaries built from the leases, then the search or the filters.
\<close>

definition dhcp_maps :: "client \<Rightarrow> exn + ip_map \<times> mac_map" where
  "dhcp_maps c =
     bindE (get_dhcpv4_leases c) (\<lambda>dhcpv4_leases.
     bindE (get_dhcpv6_leases c) (\<lambda>dhcpv6_leases.
     bindE (index_leases dhcpv4_leases ([], [])) (\<lambda>maps.
       index_leases dhcpv6_leases maps)))"

definition lookup_tables ::
  "(pyval \<Rightarrow> pyval) \<Rightarrow> lax \<Rightarrow> client \<Rightarrow> row \<Rightarrow> ip_map \<times> mac_map \<Rightarrow> exn + arp_response" where
  "lookup_tables oui lx c params maps =
     (let dhcp_ip_map = fst maps;
          dhcp_mac_map = snd maps;
          search_query = dget params ''search''
      in if truthy search_query then
           (case search_query of
              PStr query \<Rightarrow>
                if py_strip query = ''*'' \<or> py_strip query = []
                then bindE (full_tables oui lx c dhcp_ip_map dhcp_mac_map) (\<lambda>tables.
                       Inr (success tables))
                else bindE (all_queries c query) (\<lambda>queries.
                     bindE (matching_tables oui lx c dhcp_ip_map dhcp_mac_map queries) (\<lambda>tables.
                       Inr (success tables)))
            | _ \<Rightarrow> Inl (AttributeError ''strip''))
         else
           bindE (full_tables oui lx c dhcp_ip_map dhcp_mac_map) (\<lambda>tables.
           bindE (apply_filters params tables) (\<lambda>tables.
             Inr (success tables))))"

definition ARPTool_try :: "(pyval \<Rightarrow> pyval) \<Rightarrow> lax \<Rightarrow> client \<Rightarrow> row \<Rightarrow> exn + arp_response" where
  "ARPTool_try oui lx c params = bindE (dhcp_maps c) (lookup_tables oui lx c params)"

text \<open>\<open>ARPTool.execute(params)\<close>: without a client, and after any exception, the dummy data.\<close>

definition ARPTool_execute :: "(pyval \<Rightarrow> pyval) \<Rightarrow> lax \<Rightarrow> client option \<Rightarrow> row \<Rightarrow> arp_response" where
  "ARPTool_execute oui lx cl params =
     (case cl of
        None \<Rightarrow> ARPTool_get_dummy_data
      | Some c \<Rightarrow>
          (case ARPTool_try oui lx c params of
             Inl e \<Rightarrow> ARPTool_get_dummy_data
           | Inr r \<Rightarrow> r))"

section \<open>tools/system.py\<close>

text \<open>
  \<open>SystemTool.execute(params)\<close>: the test for a missing client only logs a warning;
  the call \<open>self.client.get_system_status()\<close> follows in either case, and on
  \<open>None\<close> it raises the AttributeError that the handler turns into an error payload.
\<close>

definition system_error :: "(exn \<Rightarrow> string) \<Rightarrow> exn \<Rightarrow> jdict" where
  "system_error estr e =
     [(''error'', JAtom (PStr (''Failed to get system status: '' @ estr e))),
      (''status'', JAtom (PStr ''error''))]"

definition SystemTool_execute :: "(exn \<Rightarrow> string) \<Rightarrow> client option \<Rightarrow> row \<Rightarrow> jdict" where
  "SystemTool_execute estr cl params =
     (case (case cl of
              None \<Rightarrow> Inl (AttributeError ''get_system_status'')
            | Some c \<Rightarrow> get_system_status c) of
        Inl e \<Rightarrow> system_error estr e
      | Inr result \<Rightarrow> result)"


section \<open>server_sse.py: the tool catalogue\<close>

text \<open>
  An entry of \<open>list_tools\<close>: name, description, the properties of the input schema
  (each a dictionary of its own) and the required property names.
\<close>

type_synonym tool_spec = "string \<times> string \<times> (string \<times> row) list \<times> string list"

definition opt_prop :: "string \<Rightarrow> string \<Rightarrow> row" where
  "opt_prop t d = [(''type'', PStr t), (''description'', PStr d), (''optional'', PBool True)]"

definition list_tools :: "tool_spec list" where
  "list_tools =
     [(''get_logs'', ''Get firewall logs with optional filtering'',
       [(''limit'', [(''type'', PStr ''number''), (''optional'', PBool True)]),
        (''action'', [(''type'', PStr ''string''), (''optional'', PBool True)]),
        (''src_ip'', [(''type'', PStr ''string''), (''optional'', PBool True)]),
        (''dst_ip'', [(''type'', PStr ''string''), (''optional'', PBool True)]),
        (''protocol'', [(''type'', PStr ''string''), (''optional'', PBool True)])], []),
      (''arp'', ''Show ARP/NDP table'',
       [(''mac'', opt_prop ''string'' ''Filter by MAC address''),
        (''ip'', opt_prop ''string'' ''Filter by IP address''),
        (''search'', opt_prop ''string'' ''Targeted search by IP/MAC/hostname'')], []),
      (''dhcp'', ''Show DHCP lease information'',
       [(''search'', opt_prop ''string'' ''Search by hostname/IP/MAC'')], []),
      (''lldp'', ''Show LLDP neighbor table'', [], []),
      (''system'', ''Show system status information'', [], []),
      (''fw_rules'', ''Get the current firewall rule set for context and reasoning'',
       [(''interface'', opt_prop ''string''
           ''Filter by interface name (supports partial matching and groups)''),
        (''action'', opt_prop ''string'' ''Filter by action (pass, block, reject, etc.)''),
        (''enabled'', opt_prop ''boolean'' ''Filter by enabled status''),
        (''protocol'', opt_prop ''string'' ''Filter by protocol (tcp, udp, icmp, etc.)'')], []),
      (''mkfw_rule'', ''Create a new firewall rule and optionally apply changes'',
       [(''description'', [(''type'', PStr ''string''),
                          (''description'', PStr ''Description of the rule (required)'')]),
        (''interface'', opt_prop ''string'' (''Interface name (default: '' @ [CHR 0x27] @ ''lan'' @ [CHR 0x27] @ '')'')),
        (''action'', opt_prop ''string'' (''pass, block, or reject (default: '' @ [CHR 0x27] @ ''pass'' @ [CHR 0x27] @ '')'')),
        (''protocol'', opt_prop ''string'' (''any, tcp, udp, icmp, etc. (default: '' @ [CHR 0x27] @ ''any'' @ [CHR 0x27] @ '')'')),
        (''source_net'', opt_prop ''string'' (''Source network/IP (default: '' @ [CHR 0x27] @ ''any'' @ [CHR 0x27] @ '')'')),
        (''source_port'', opt_prop ''string'' (''Source port (default: '' @ [CHR 0x27] @ ''any'' @ [CHR 0x27] @ '')'')),
        (''destination_net'', opt_prop ''string'' (''Destination network/IP (default: '' @ [CHR 0x27] @ ''any'' @ [CHR 0x27] @ '')'')),
        (''destination_port'', opt_prop ''string'' (''Destination port (default: '' @ [CHR 0x27] @ ''any'' @ [CHR 0x27] @ '')'')),
        (''direction'', opt_prop ''string'' (''in or out (default: '' @ [CHR 0x27] @ ''in'' @ [CHR 0x27] @ '')'')),
        (''ipprotocol'', opt_prop ''string'' (''inet or inet6 (default: '' @ [CHR 0x27] @ ''inet'' @ [CHR 0x27] @ '')'')),
        (''enabled'', opt_prop ''boolean'' ''true or false (default: true)''),
        (''gateway'', opt_prop ''string'' (''Gateway to use (default: '' @ [CHR 0x27, CHR 0x27] @ '')'')),
        (''apply'', opt_prop ''boolean'' ''Whether to apply changes immediately (default: true)'')],
       [''description'']),
      (''rmfw_rule'', ''Delete a firewall rule and optionally apply changes'',
       [(''rule_uuid'', [(''type'', PStr ''string''),
                        (''description'', PStr ''UUID of the rule to delete (required)'')]),
        (''apply'', opt_prop ''boolean'' ''Whether to apply changes immediately (default: true)'')],
       [''rule_uuid'']),
      (''interface_list'', ''Get available interface names for firewall rules'', [], [])]"

text \<open>The properties that the catalogue declares for a tool.\<close>

definition declared_properties :: "string \<Rightarrow> string list" where
  "declared_properties name =
     (case map_of list_tools name of
        None \<Rightarrow> []
      | Some (description, properties, required) \<Rightarrow> map fst properties)"

section \<open>server_sse.py: the dispatcher\<close>

text \<open>
  The nine tool singletons are the record \<open>tools\<close>: each field is what awaiting the
  tool on the given arguments and applying \<open>str\<close> to the result does, an exception or
  the text. \<open>vstr\<close> renders the value inside an f-string.
\<close>

record tools =
  arp_tool :: "jval \<Rightarrow> exn + string"
  dhcp_tool :: "jval \<Rightarrow> exn + string"
  firewall_logs :: "jval \<Rightarrow> exn + string"
  lldp_tool :: "jval \<Rightarrow> exn + string"
  system_tool :: "jval \<Rightarrow> exn + string"
  fw_rules_tool :: "jval \<Rightarrow> exn + string"
  mkfw_rule_tool :: "jval \<Rightarrow> exn + string"
  rmfw_rule_tool :: "jval \<Rightarrow> exn + string"
  interface_list_tool :: "jval \<Rightarrow> exn + string"

text \<open>\<open>{"content": [{"type": "text", "text": t}]}\<close>.\<close>

datatype content = TextContent string

definition is_name :: "jval \<Rightarrow> string \<Rightarrow> bool" where
  "is_name tool_name s = (tool_name = JAtom (PStr s))"

text \<open>The \<open>try\<close> block of \<open>call_tool\<close>, and \<open>call_tool\<close> with its handler.\<close>

definition call_tool_try :: "(jval \<Rightarrow> string) \<Rightarrow> tools \<Rightarrow> jval \<Rightarrow> jval \<Rightarrow> exn + content" where
  "call_tool_try vstr ts tool_name arguments =
     (if is_name tool_name ''arp'' then bindE (arp_tool ts arguments) (\<lambda>t. Inr (TextContent t))
      else if is_name tool_name ''dhcp'' then bindE (dhcp_tool ts arguments) (\<lambda>t. Inr (TextContent t))
      else if is_name tool_name ''get_logs'' then bindE (firewall_logs ts arguments) (\<lambda>t. Inr (TextContent t))
      else if is_name tool_name ''lldp'' then bindE (lldp_tool ts arguments) (\<lambda>t. Inr (TextContent t))
      else if is_name tool_name ''system'' then bindE (system_tool ts arguments) (\<lambda>t. Inr (TextContent t))
      else if is_name tool_name ''fw_rules'' then bindE (fw_rules_tool ts arguments) (\<lambda>t. Inr (TextContent t))
      else if is_name tool_name ''mkfw_rule'' then bindE (mkfw_rule_tool ts arguments) (\<lambda>t. Inr (TextContent t))
      else if is_name tool_name ''rmfw_rule'' then bindE (rmfw_rule_tool ts arguments) (\<lambda>t. Inr (TextContent t))
      else if is_name tool_name ''interface_list''
        then bindE (interface_list_tool ts arguments) (\<lambda>t. Inr (TextContent t))
      else Inl (HTTPException 404 (''Tool not found: '' @ vstr tool_name)))"

definition call_tool ::
  "(exn \<Rightarrow> string) \<Rightarrow> (jval \<Rightarrow> string) \<Rightarrow> tools \<Rightarrow> jval \<Rightarrow> jval \<Rightarrow> exn + content" where
  "call_tool estr vstr ts tool_name arguments =
     (case call_tool_try vstr ts tool_name arguments of
        Inl e \<Rightarrow> Inl (HTTPException 500 (''Error executing tool: '' @ estr e))
      | Inr r \<Rightarrow> Inr r)"

text \<open>The status line of the direct path \<open>POST /tool/{name}\<close>.\<close>

fun http_status :: "exn + content \<Rightarrow> int" where
  "http_status (Inr r) = 200"
| "http_status (Inl (HTTPException code detail)) = code"
| "http_status (Inl e) = 500"

record JsonRpcRequest =
  rpc_id :: "string option"
  rpc_method :: string
  rpc_params :: "jdict option"

datatype rpc_payload =
    InitializeResult jval
  | ToolsResult "tool_spec list"
  | CallResult content
  | ErrorObject int string

record rpc_response =
  resp_jsonrpc :: string
  resp_id :: "string option"
  resp_payload :: rpc_payload

text \<open>
  \<open>jsonrpc_endpoint\<close>. The inner handler takes an \<open>HTTPException\<close> of
  \<open>call_tool\<close>; an exception of any other class would reach the outer handler.
\<close>

definition jsonrpc_endpoint ::
  "(exn \<Rightarrow> string) \<Rightarrow> (jval \<Rightarrow> string) \<Rightarrow> tools \<Rightarrow> JsonRpcRequest \<Rightarrow> rpc_response" where
  "jsonrpc_endpoint estr vstr ts request =
     (let method = rpc_method request;
          params = (case rpc_params request of None \<Rightarrow> [] | Some p \<Rightarrow> p);
          msg_id = rpc_id request;
          reply = (\<lambda>p. \<lparr>resp_jsonrpc = ''2.0'', resp_id = msg_id, resp_payload = p\<rparr>)
      in if method = ''initialize'' then
           (let protocol_version = jget params ''protocolVersion'';
                protocol_version =
                  (if \<not> jtruthy protocol_version \<or> protocol_version = JAtom (PStr ''undefined'')
                   then JAtom (PStr ''2024-11-05'') else protocol_version)
            in reply (InitializeResult protocol_version))
         else if method = ''tools/list'' \<or> method = ''ListOfferings'' then
           reply (ToolsResult list_tools)
         else if method = ''tools/call'' \<or> method = ''tool/call'' then
           (let tool_name = jor (jget params ''name'') (jget params ''tool'');
                arguments = jor (jor (jget params ''arguments'') (jget params ''args'')) (JDict [])
            in if \<not> jtruthy tool_name then
                 reply (ErrorObject (- 32602) ''Invalid params: tool name is required'')
               else
                 (case call_tool estr vstr ts tool_name arguments of
                    Inr result \<Rightarrow> reply (CallResult result)
                  | Inl (HTTPException status_code detail) \<Rightarrow>
                      reply (ErrorObject (if status_code = 404 then - 32601 else - 32603) detail)
                  | Inl e \<Rightarrow>
                      reply (ErrorObject (- 32603) (''Internal error: '' @ estr e))))
         else reply (ErrorObject (- 32601) (''Method not found: '' @ method)))"

section \<open>server_sse.py: the push channel\<close>

text \<open>
  \<open>client_connections\<close> maps a client id to its queue. A queue is an object:
  \<open>client_connections\<close> holds its address, and \<open>queue_items\<close> is the store, from
  an address to the items of the object that lives there, where \<open>None\<close> is the signal
  to close. \<open>asyncio.Queue()\<close> takes the fresh address \<open>next_queue\<close>. An object
  that \<open>client_connections\<close> no longer holds keeps its items for whoever still
  holds its address. \<open>json_dumps\<close> is \<open>json.dumps\<close>.
\<close>

record sse_event =
  ev_event :: jval
  ev_id :: jval
  ev_data :: string

record broker =
  client_connections :: "(string \<times> nat) list"
  queue_items :: "nat \<Rightarrow> sse_event option list"
  next_queue :: nat

definition make_event :: "(jval \<Rightarrow> string) \<Rightarrow> string \<Rightarrow> jdict \<Rightarrow> sse_event" where
  "make_event json_dumps obj_id data =
     \<lparr>ev_event = jget_default data ''event'' (JAtom (PStr ''message'')),
      ev_id = jget_default data ''id'' (JAtom (PStr obj_id)),
      ev_data = json_dumps (jget_default data ''data'' (JDict []))\<rparr>"

text \<open>\<open>put\<close> on the queue object at address \<open>q\<close>. The queue is unbounded, so it does not wait.\<close>

definition queue_put :: "nat \<Rightarrow> sse_event option \<Rightarrow> broker \<Rightarrow> broker" where
  "queue_put q item s = s\<lparr>queue_items := (queue_items s)(q := queue_items s q @ [item])\<rparr>"

text \<open>\<open>send_to_client(client_id, data)\<close>; \<open>obj_id\<close> is \<open>str(id(data))\<close>.\<close>

definition send_to_client ::
  "(jval \<Rightarrow> string) \<Rightarrow> string \<Rightarrow> string \<Rightarrow> jdict \<Rightarrow> broker \<Rightarrow> (exn + string) \<times> broker" where
  "send_to_client json_dumps obj_id client_id data s =
     (case map_of (client_connections s) client_id of
        None \<Rightarrow> (Inl (HTTPException 404 (''Client '' @ client_id @ '' not connected'')), s)
      | Some q \<Rightarrow> (Inr ''sent'', queue_put q (Some (make_event json_dumps obj_id data)) s))"

text \<open>
  \<open>event_generator\<close> of \<open>sse_endpoint\<close>, one resumption at a time. The generator is
  not started, or suspended at the first \<open>yield\<close>, or at the \<open>yield\<close> in the loop, or
  inside \<open>get()\<close> of the queue object whose address it holds, or finished.
\<close>

datatype gen_state = Created | AtConnected | AtEvent | Awaiting nat | Finished

datatype gen_output = Yielded sse_event | Pending | StopAsyncIteration | Raised exn

definition connected_event :: "(jval \<Rightarrow> string) \<Rightarrow> string \<Rightarrow> sse_event" where
  "connected_event json_dumps client_id =
     \<lparr>ev_event = JAtom (PStr ''connected''),
      ev_id = JAtom (PStr client_id),
      ev_data = json_dumps (JDict [(''status'', PStr ''connected''), (''client_id'', PStr client_id)])\<rparr>"

text \<open>\<open>client_connections[client_id] = asyncio.Queue()\<close>: a new, empty object.\<close>

definition register :: "string \<Rightarrow> broker \<Rightarrow> broker" where
  "register client_id s =
     s\<lparr>client_connections := AList.update client_id (next_queue s) (client_connections s),
       queue_items := (queue_items s)(next_queue s := []),
       next_queue := Suc (next_queue s)\<rparr>"

text \<open>The \<open>finally\<close> block.\<close>

definition cleanup :: "string \<Rightarrow> broker \<Rightarrow> broker" where
  "cleanup client_id s =
     (if map_of (client_connections s) client_id \<noteq> None
      then s\<lparr>client_connections := AList.delete client_id (client_connections s)\<rparr>
      else s)"

text \<open>
  \<open>get()\<close> on the queue object at address \<open>q\<close>: it completes when that object holds
  an item, whether or not \<open>client_connections\<close> still holds the object.
\<close>

definition await_get :: "string \<Rightarrow> nat \<Rightarrow> broker \<Rightarrow> gen_output \<times> broker \<times> gen_state" where
  "await_get client_id q s =
     (case queue_items s q of
        [] \<Rightarrow> (Pending, s, Awaiting q)
      | item # rest \<Rightarrow>
          (let s' = s\<lparr>queue_items := (queue_items s)(q := rest)\<rparr>
           in case item of
                None \<Rightarrow> (StopAsyncIteration, cleanup client_id s', Finished)
              | Some event \<Rightarrow> (Yielded event, s', AtEvent)))"

text \<open>
  One turn of the loop: \<open>client_connections[client_id]\<close>, then \<open>get()\<close> on what it
  holds. A \<open>KeyError\<close> leaves through the \<open>finally\<close> block, which then finds nothing
  to delete.
\<close>

definition loop_turn :: "string \<Rightarrow> broker \<Rightarrow> gen_output \<times> broker \<times> gen_state" where
  "loop_turn client_id s =
     (case map_of (client_connections s) client_id of
        None \<Rightarrow> (Raised (KeyError client_id), s, Finished)
      | Some q \<Rightarrow> await_get client_id q s)"

fun gen_next ::
  "(jval \<Rightarrow> string) \<Rightarrow> string \<Rightarrow> broker \<times> gen_state \<Rightarrow> gen_output \<times> broker \<times> gen_state" where
  "gen_next json_dumps client_id (s, Created) =
     (Yielded (connected_event json_dumps client_id), s, AtConnected)"
| "gen_next json_dumps client_id (s, AtConnected) = loop_turn client_id (register client_id s)"
| "gen_next json_dumps client_id (s, AtEvent) = loop_turn client_id s"
| "gen_next json_dumps client_id (s, Awaiting q) = await_get client_id q s"
| "gen_next json_dumps client_id (s, Finished) = (StopAsyncIteration, s, Finished)"

text \<open>
  The consumer goes away: \<open>CancelledError\<close> arrives at the suspension point and the
  \<open>finally\<close> block runs, unless the generator never entered its \<open>try\<close>.
\<close>

fun gen_cancel :: "string \<Rightarrow> broker \<times> gen_state \<Rightarrow> broker \<times> gen_state" where
  "gen_cancel client_id (s, Created) = (s, Finished)"
| "gen_cancel client_id (s, Finished) = (s, Finished)"
| "gen_cancel client_id (s, g) = (cleanup client_id s, Finished)"

text \<open>
  The server with the streams it has handed out. Each \<open>GET /sse\<close> makes one stream:
  the client id of the request, the state of its generator, and what it has yielded so
  far. Two streams may carry the same client id: a client that subscribes again while
  its earlier stream is still open. \<open>accepted\<close> lists, in order, the events that
  \<open>send_to_client\<close> has put on a queue, each with the client id it was sent to.
\<close>

record stream =
  stream_client :: string
  stream_gen :: gen_state
  yielded :: "sse_event list"

record server =
  the_broker :: broker
  streams :: "stream list"
  accepted :: "(string \<times> sse_event) list"

text \<open>
  Requests as they reach the server: a \<open>POST /send/{client_id}\<close> with its body,
  the consumer of the \<open>i\<close>-th stream asking for the next item (or the event loop
  resuming it inside \<open>get()\<close>), or that consumer going away. \<open>interleave\<close> runs
  them in order.
\<close>

datatype request = Send string jdict string | Next nat | Cancel nat

fun serve :: "(jval \<Rightarrow> string) \<Rightarrow> request \<Rightarrow> server \<Rightarrow> server" where
  "serve json_dumps (Send target data obj_id) x =
     (case send_to_client json_dumps obj_id target data (the_broker x) of
        (Inl e, s) \<Rightarrow> x\<lparr>the_broker := s\<rparr>
      | (Inr ok, s) \<Rightarrow>
          x\<lparr>the_broker := s,
            accepted := accepted x @ [(target, make_event json_dumps obj_id data)]\<rparr>)"
| "serve json_dumps (Next i) x =
     (if i < length (streams x)
      then (let r = streams x ! i
            in case gen_next json_dumps (stream_client r) (the_broker x, stream_gen r) of
                 (Yielded event, s, g) \<Rightarrow>
                   x\<lparr>the_broker := s,
                     streams := (streams x)[i := r\<lparr>stream_gen := g, yielded := yielded r @ [event]\<rparr>]\<rparr>
               | (out, s, g) \<Rightarrow>
                   x\<lparr>the_broker := s, streams := (streams x)[i := r\<lparr>stream_gen := g\<rparr>]\<rparr>)
      else x)"
| "serve json_dumps (Cancel i) x =
     (if i < length (streams x)
      then (let r = streams x ! i
            in case gen_cancel (stream_client r) (the_broker x, stream_gen r) of
                 (s, g) \<Rightarrow> x\<lparr>the_broker := s, streams := (streams x)[i := r\<lparr>stream_gen := g\<rparr>]\<rparr>)
      else x)"

fun interleave :: "(jval \<Rightarrow> string) \<Rightarrow> request list \<Rightarrow> server \<Rightarrow> server" where
  "interleave json_dumps [] x = x"
| "interleave json_dumps (r # rs) x = interleave json_dumps rs (serve json_dumps r x)"

text \<open>The server as the module is loaded, with one stream not yet started per \<open>GET /sse\<close>.\<close>

definition no_clients :: broker where
  "no_clients = \<lparr>client_connections = [], queue_items = (\<lambda>q. []), next_queue = 0\<rparr>"

definition new_stream :: "string \<Rightarrow> stream" where
  "new_stream client_id = \<lparr>stream_client = client_id, stream_gen = Created, yielded = []\<rparr>"

definition startup :: "string list \<Rightarrow> server" where
  "startup client_ids =
     \<lparr>the_broker = no_clients, streams = map new_stream client_ids, accepted = []\<rparr>"

text \<open>The events accepted for \<open>client_id\<close>, in the order they were accepted.\<close>

definition sent_to :: "string \<Rightarrow> (string \<times> sse_event) list \<Rightarrow> sse_event list" where
  "sent_to client_id log = map snd (filter (\<lambda>entry. fst entry = client_id) log)"


text \<open>
  The accepted events with the address of the queue that took each: what was put on the
  queue at \<open>q\<close>, what was accepted for \<open>client_id\<close>, that the queue at \<open>q\<close> took
  events of \<open>client_id\<close> only, and that the queues of one client took its events in
  the order of their addresses.
\<close>

type_synonym put_log = "(string \<times> nat \<times> sse_event) list"

definition on_queue :: "nat \<Rightarrow> put_log \<Rightarrow> sse_event option list" where
  "on_queue q puts = map (\<lambda>t. Some (snd (snd t))) (filter (\<lambda>t. fst (snd t) = q) puts)"

definition for_client :: "string \<Rightarrow> put_log \<Rightarrow> sse_event list" where
  "for_client client_id puts = map (\<lambda>t. snd (snd t)) (filter (\<lambda>t. fst t = client_id) puts)"

definition only_for :: "string \<Rightarrow> nat \<Rightarrow> put_log \<Rightarrow> bool" where
  "only_for client_id q puts \<longleftrightarrow> (\<forall>t \<in> set puts. fst (snd t) = q \<longrightarrow> fst t = client_id)"

definition ascending :: "put_log \<Rightarrow> bool" where
  "ascending puts \<longleftrightarrow>
     (\<forall>before t after. puts = before @ t # after \<longrightarrow>
        (\<forall>u \<in> set before. fst u = fst t \<longrightarrow> fst (snd u) \<le> fst (snd t)))"

text \<open>
  A broker that fits the log: a registered queue is allocated, belongs to one client and
  is the newest that took events of that client; every queue holds the last events that
  were put on it.
\<close>

definition broker_ok :: "broker \<Rightarrow> put_log \<Rightarrow> bool" where
  "broker_ok s puts \<longleftrightarrow>
     (\<forall>c q. map_of (client_connections s) c = Some q \<longrightarrow>
        q < next_queue s \<and> only_for c q puts \<and>
        (\<forall>d. map_of (client_connections s) d = Some q \<longrightarrow> d = c) \<and>
        (\<forall>t \<in> set puts. fst t = c \<longrightarrow> fst (snd t) \<le> q)) \<and>
     (\<forall>t \<in> set puts. fst (snd t) < next_queue s) \<and>
     (\<forall>q. suffix (queue_items s q) (on_queue q puts)) \<and>
     ascending puts"

text \<open>The oldest queue that a stream may still read.\<close>

definition frontier :: "string \<Rightarrow> gen_state \<Rightarrow> broker \<Rightarrow> nat" where
  "frontier client_id g s =
     (case g of
        Awaiting q \<Rightarrow> q
      | _ \<Rightarrow> (case map_of (client_connections s) client_id of
                Some q \<Rightarrow> q
              | None \<Rightarrow> next_queue s))"

text \<open>
  The queues of \<open>client_id\<close> from the address \<open>oldest\<close> on hold only events that
  were accepted after the first \<open>k\<close>.
\<close>

definition holds_later :: "string \<Rightarrow> nat \<Rightarrow> broker \<Rightarrow> put_log \<Rightarrow> nat \<Rightarrow> bool" where
  "holds_later client_id oldest s puts k \<longleftrightarrow>
     (\<forall>q. oldest \<le> q \<and> only_for client_id q puts \<longrightarrow>
        suffix (queue_items s q) (on_queue q (drop k puts)))"

text \<open>
  A stream that fits the log: it started with the \<open>connected\<close> event, and what it
  yielded since is, in order, among the first \<open>k\<close> accepted events, while everything it
  may still read was accepted later.
\<close>

definition stream_ok :: "(jval \<Rightarrow> string) \<Rightarrow> broker \<Rightarrow> put_log \<Rightarrow> stream \<Rightarrow> bool" where
  "stream_ok json_dumps s puts r \<longleftrightarrow>
     (stream_gen r = Created \<longrightarrow> yielded r = []) \<and>
     (stream_gen r \<noteq> Created \<and> stream_gen r \<noteq> Finished \<longrightarrow> yielded r \<noteq> []) \<and>
     (yielded r = [] \<or> hd (yielded r) = connected_event json_dumps (stream_client r)) \<and>
     (\<forall>q. stream_gen r = Awaiting q \<longrightarrow>
        q < next_queue s \<and> only_for (stream_client r) q puts \<and>
        (\<forall>d. map_of (client_connections s) d = Some q \<longrightarrow> d = stream_client r)) \<and>
     (\<exists>k \<le> length puts.
        subseq (tl (yielded r)) (for_client (stream_client r) (take k puts)) \<and>
        (stream_gen r \<noteq> Finished \<longrightarrow>
           holds_later (stream_client r) (frontier (stream_client r) (stream_gen r) s) s puts k))"

definition server_ok :: "(jval \<Rightarrow> string) \<Rightarrow> server \<Rightarrow> put_log \<Rightarrow> bool" where
  "server_ok json_dumps x puts \<longleftrightarrow>
     map (\<lambda>t. (fst t, snd (snd t))) puts = accepted x \<and>
     broker_ok (the_broker x) puts \<and>
     (\<forall>r \<in> set (streams x). stream_ok json_dumps (the_broker x) puts r)"

text \<open>
  A server whose only stream is one of \<open>client_id\<close>: before the stream registers
  nothing is accepted; after, its queue holds, in order, the accepted events that the
  stream has not yet yielded.
\<close>

definition in_order :: "(jval \<Rightarrow> string) \<Rightarrow> string \<Rightarrow> server \<Rightarrow> bool" where
  "in_order json_dumps client_id x \<longleftrightarrow>
     (\<exists>r. streams x = [r] \<and> stream_client r = client_id \<and>
        (client_connections (the_broker x) = [] \<and> accepted x = [] \<and>
           (stream_gen r = Created \<and> yielded r = [] \<or>
            stream_gen r = AtConnected \<and> yielded r = [connected_event json_dumps client_id]) \<or>
         (\<exists>q pending.
            client_connections (the_broker x) = [(client_id, q)] \<and>
            queue_items (the_broker x) q = map Some pending \<and>
            yielded r \<noteq> [] \<and>
            sent_to client_id (accepted x) = tl (yielded r) @ pending \<and>
            (stream_gen r = AtEvent \<or> stream_gen r = Awaiting q))))"

section \<open>Inputs for the examples\<close>

text \<open>
  The part of pydantic's lax conversion that is beyond doubt: a boolean for a \<open>bool\<close>
  field and an integer for an \<open>int\<close> field are taken as they are.
\<close>

definition lax_exact :: lax where
  "lax_exact t v =
     (case (t, v) of
        (TBool, PBool b) \<Rightarrow> Some (PBool b)
      | (TInt, PInt i) \<Rightarrow> Some (PInt i)
      | _ \<Rightarrow> None)"

text \<open>
  A collaborator with one lease per family, both reported offline; the host of the
  DHCPv4 lease is in the ARP table, the NDP table is empty.
\<close>

definition lan_client :: client where
  "lan_client =
     \<lparr>get_dhcpv4_leases =
        Inr [[(''address'', PStr ''10.0.0.5''), (''mac'', PStr ''aa:bb''), (''online'', PBool False)]],
      get_dhcpv6_leases =
        Inr [[(''ip'', PStr ''fe80::5''), (''mac'', PStr ''cc:dd''), (''online'', PBool False)]],
      get_arp_table =
        Inr [[(''ip'', PStr ''10.0.0.5''), (''mac'', PStr ''aa:bb''), (''intf'', PStr ''em0'')]],
      get_ndp_table = Inr [],
      resolve_host_info = None,
      get_system_status = Inr []\<rparr>"

text \<open>A broker with the client \<open>a\<close> registered, and two request bodies.\<close>

definition one_client :: broker where
  "one_client = \<lparr>client_connections = [(''a'', 0)], queue_items = (\<lambda>q. []), next_queue = 1\<rparr>"

definition body1 :: jdict where
  "body1 = [(''event'', JAtom (PStr ''update'')), (''id'', JAtom (PStr ''1''))]"

definition body2 :: jdict where
  "body2 = [(''event'', JAtom (PStr ''update'')), (''id'', JAtom (PStr ''2''))]"

text \<open>Tool singletons that answer every call with the same text.\<close>

definition echo_tools :: tools where
  "echo_tools =
     \<lparr>arp_tool = (\<lambda>a. Inr ''arp''), dhcp_tool = (\<lambda>a. Inr ''dhcp''),
      firewall_logs = (\<lambda>a. Inr ''logs''), lldp_tool = (\<lambda>a. Inr ''lldp''),
      system_tool = (\<lambda>a. Inr ''system''), fw_rules_tool = (\<lambda>a. Inr ''rules''),
      mkfw_rule_tool = (\<lambda>a. Inr ''made''), rmfw_rule_tool = (\<lambda>a. Inr ''removed''),
      interface_list_tool = (\<lambda>a. Inr ''interfaces'')\<rparr>"

text \<open>
  A collaborator without leases and without \<open>resolve_host_info\<close>, whose ARP table has
  two hosts with the same vendor prefix.
\<close>

definition two_hosts :: client where
  "two_hosts =
     \<lparr>get_dhcpv4_leases = Inr [],
      get_dhcpv6_leases = Inr [],
      get_arp_table =
        Inr [[(''ip'', PStr ''192.168.1.10''), (''mac'', PStr ''aa:bb:cc:dd:ee:ff''),
              (''intf'', PStr ''em0'')],
             [(''ip'', PStr ''192.168.1.11''), (''mac'', PStr ''aa:bb:00:11:22:33''),
              (''intf'', PStr ''em0'')]],
      get_ndp_table = Inr [],
      resolve_host_info = None,
      get_system_status = Inr []\<rparr>"

text \<open>
  The lease and the neighbor entry of the hostname search, and a collaborator that
  holds them and resolves a query to the lease under the key \<open>dhcpv4\<close>.
\<close>

definition trogdor_lease :: row where
  "trogdor_lease =
     [(''hostname'', PStr ''trogdor-pc''), (''ip'', PStr ''10.0.0.5''),
      (''mac'', PStr ''aa:bb:cc:00:11:22'')]"

definition trogdor_neighbor :: row where
  "trogdor_neighbor =
     [(''ip'', PStr ''10.0.0.5''), (''mac'', PStr ''aa:bb:cc:00:11:22''), (''hostname'', PNone),
      (''intf'', PStr ''em0'')]"

definition trogdor_client :: client where
  "trogdor_client =
     \<lparr>get_dhcpv4_leases = Inr [trogdor_lease],
      get_dhcpv6_leases = Inr [],
      get_arp_table =
        Inr [[(''ip'', PStr ''10.0.0.9''), (''mac'', PStr ''aa:bb:cc:00:11:99''),
              (''hostname'', PNone), (''intf'', PStr ''em0'')],
             trogdor_neighbor],
      get_ndp_table = Inr [],
      resolve_host_info = Some (\<lambda>query. Inr [(''dhcpv4'', JDict trogdor_lease)]),
      get_system_status = Inr []\<rparr>"

text \<open>
  The neighbor entry with the three fields that the specification's example gives it,
  and a collaborator that holds it with the lease and resolves a query to the lease.
  \<open>no_vendor\<close> is a vendor table that knows no prefix.
\<close>

definition bare_neighbor :: row where
  "bare_neighbor =
     [(''ip'', PStr ''10.0.0.5''), (''mac'', PStr ''aa:bb:cc:00:11:22''), (''hostname'', PNone)]"

definition bare_client :: client where
  "bare_client =
     \<lparr>get_dhcpv4_leases = Inr [trogdor_lease],
      get_dhcpv6_leases = Inr [],
      get_arp_table = Inr [bare_neighbor],
      get_ndp_table = Inr [],
      resolve_host_info = Some (\<lambda>query. Inr [(''dhcpv4'', JDict trogdor_lease)]),
      get_system_status = Inr []\<rparr>"

definition no_vendor :: "pyval \<Rightarrow> pyval" where
  "no_vendor mac = PNone"

text \<open>A broker whose client \<open>a\<close> has the close signal at the head of its queue.\<close>

definition closing_client :: broker where
  "closing_client =
     \<lparr>client_connections = [(''a'', 0)],
      queue_items = (\<lambda>q. if q = 0 then [None] else []),
      next_queue = 1\<rparr>"

text \<open>
  A client subscribes a second time with the same id while its first stream waits:
  the first stream registers and waits, an event is sent, the second stream registers
  and waits, a second event is sent, and the first stream is resumed twice and the
  second once.
\<close>

definition resubscribe :: "request list" where
  "resubscribe =
     [Next 0, Next 0, Send ''a'' body1 ''7'', Next 1, Next 1, Send ''a'' body2 ''8'',
      Next 0, Next 0, Next 1]"

section \<open>Exceptions in loops\<close>

lemma mapE_Inr:
  "mapE f xs = Inr ys \<Longrightarrow> length ys = length xs \<and> (\<forall>i<length xs. f (xs ! i) = Inr (ys ! i))"
proof (induction xs arbitrary: ys)
  case Nil
  then show ?case by simp
next
  case (Cons x xs)
  then show ?case
    by (auto split: sum.splits simp: nth_Cons split: nat.splits)
qed

lemma isl_mapE:
  "(\<And>x. x \<in> set xs \<Longrightarrow> isl (f x) = isl (g x)) \<Longrightarrow> isl (mapE f xs) = isl (mapE g xs)"
proof (induction xs)
  case Nil
  then show ?case by simp
next
  case (Cons x xs)
  then have "isl (f x) = isl (g x)" "isl (mapE f xs) = isl (mapE g xs)" by simp_all
  then show ?case
    by (cases "f x"; cases "g x"; cases "mapE f xs"; cases "mapE g xs") simp_all
qed

section \<open>Validation\<close>

lemma those_map_of:
  "those (map (\<lambda>(k, t, rq). map_option (Pair k) (g k t rq)) sch) = Some r \<Longrightarrow>
   map_of sch k = Some (t, rq) \<Longrightarrow> map_of r k = g k t rq"
proof (induction sch arbitrary: r)
  case Nil
  then show ?case by simp
next
  case (Cons a sch)
  then show ?case
    by (cases a) (auto split: option.splits if_splits)
qed

lemma model_dump_field:
  assumes "model_dump lx name sch d = Inr r" "map_of sch k = Some (t, rq)"
  shows "map_of r k = validate_field lx t rq (map_of d k)"
  using assms those_map_of[of "\<lambda>k t rq. validate_field lx t rq (map_of d k)" sch r k t rq]
  by (auto simp: model_dump_def split: option.splits)

lemma those_map_None: "those (map F xs) = None \<longleftrightarrow> (\<exists>x\<in>set xs. F x = None)"
  by (induction xs) (auto split: option.splits)

lemma isl_model_dump:
  "isl (model_dump lx name sch d) \<longleftrightarrow>
     (\<exists>(k, t, rq) \<in> set sch. validate_field lx t rq (map_of d k) = None)"
proof -
  let ?F = "\<lambda>(k, t, required). map_option (Pair k) (validate_field lx t required (map_of d k))"
  have "isl (model_dump lx name sch d) \<longleftrightarrow> those (map ?F sch) = None"
    by (cases "those (map ?F sch)") (simp_all add: model_dump_def)
  then show ?thesis
    by (simp add: those_map_None case_prod_beta)
qed

section \<open>The lease status\<close>

text \<open>
  The neighbor sets hold the non-empty values of a field: a non-empty value is in the
  set exactly when some row of the table has it in that field.
\<close>

lemma py_eq_truthy: "py_eq v w \<Longrightarrow> truthy v \<Longrightarrow> truthy w"
  by (cases "(v, w)" rule: py_eq.cases) (auto split: if_splits)

lemma py_in_neighbor_set:
  assumes "truthy v"
  shows "py_in v (neighbor_set k table) \<longleftrightarrow> (\<exists>entry\<in>set table. py_eq v (dget entry k))"
  using assms py_eq_truthy[of v]
  by (auto simp: py_in_def neighbor_set_def list_ex_iff)

lemma lease_entry_status:
  assumes "lease_entry lx ips macs e = Inr r"
  shows "dget r ''actual_status'' = PStr (actual_status ips macs (normalize_lease_entry e))"
proof -
  have "map_of DHCPLease ''actual_status'' = Some (TStr, False)" by (simp add: DHCPLease_def)
  from model_dump_field[OF assms[unfolded lease_entry_def Let_def] this]
  show ?thesis by (simp add: dget_def AList.update_conv')
qed

lemma DHCPTool_try_Inr:
  assumes "DHCPTool_try lx c = Inr r"
  shows "\<exists>l4 l6 arp_data ndp_data. get_dhcpv4_leases c = Inr l4 \<and> get_dhcpv6_leases c = Inr l6 \<and>
           get_arp_table c = Inr arp_data \<and> get_ndp_table c = Inr ndp_data \<and>
           mapE (lease_entry lx (neighbor_set ''ip'' arp_data) (neighbor_set ''mac'' arp_data)) l4 = Inr (dhcpv4 r) \<and>
           mapE (lease_entry lx (neighbor_set ''ip'' ndp_data) (neighbor_set ''mac'' ndp_data)) l6 = Inr (dhcpv6 r)"
proof -
  obtain l4 where l4: "get_dhcpv4_leases c = Inr l4"
    using assms by (cases "get_dhcpv4_leases c") (auto simp: DHCPTool_try_def)
  obtain l6 where l6: "get_dhcpv6_leases c = Inr l6"
    using assms l4 by (cases "get_dhcpv6_leases c") (auto simp: DHCPTool_try_def)
  obtain arp_data where arp_data: "get_arp_table c = Inr arp_data"
    using assms l4 l6 by (cases "get_arp_table c") (auto simp: DHCPTool_try_def)
  obtain ndp_data where ndp_data: "get_ndp_table c = Inr ndp_data"
    using assms l4 l6 arp_data by (cases "get_ndp_table c") (auto simp: DHCPTool_try_def)
  let ?m4 = "mapE (lease_entry lx (neighbor_set ''ip'' arp_data) (neighbor_set ''mac'' arp_data)) l4"
  let ?m6 = "mapE (lease_entry lx (neighbor_set ''ip'' ndp_data) (neighbor_set ''mac'' ndp_data)) l6"
  obtain e4 where e4: "?m4 = Inr e4"
    using assms l4 l6 arp_data ndp_data by (cases ?m4) (auto simp: DHCPTool_try_def Let_def)
  obtain e6 where e6: "?m6 = Inr e6"
    using assms l4 l6 arp_data ndp_data e4 by (cases ?m6) (auto simp: DHCPTool_try_def Let_def)
  have "dhcpv4 r = e4" "dhcpv6 r = e6"
    using assms l4 l6 arp_data ndp_data e4 e6 by (auto simp: DHCPTool_try_def Let_def)
  with l4 l6 arp_data ndp_data e4 e6 show ?thesis by simp
qed

lemma DHCPTool_execute_success:
  assumes "status (DHCPTool_execute estr lx (Some c) params) = ''success''"
  shows "DHCPTool_try lx c = Inr (DHCPTool_execute estr lx (Some c) params)"
  using assms by (cases "DHCPTool_try lx c") (auto simp: DHCPTool_execute_def)

text \<open>Whether a lease validates does not depend on the neighbor sets.\<close>

lemma isl_lease_entry:
  "isl (lease_entry lx a b e) = isl (lease_entry lx a' b' e)"
  by (simp add: lease_entry_def Let_def isl_model_dump DHCPLease_def AList.update_conv')

lemma isl_lease_entries:
  "isl (mapE (lease_entry lx a b) ls) = isl (mapE (lease_entry lx a' b') ls)"
  by (rule isl_mapE) (rule isl_lease_entry)

lemma dhcpv4_independent_of_ndp:
  assumes "get_ndp_table c = Inr ndp_data"
  shows "dhcpv4 (DHCPTool_execute estr lx (Some (c\<lparr>get_ndp_table := Inr ndp'\<rparr>)) params) =
         dhcpv4 (DHCPTool_execute estr lx (Some c) params)"
proof -
  let ?f = "\<lambda>n l6. mapE (lease_entry lx (neighbor_set ''ip'' n) (neighbor_set ''mac'' n)) l6"
  have "isl (?f ndp' l6) = isl (?f ndp_data l6)" for l6
    by (rule isl_lease_entries)
  then have *: "(\<exists>e. ?f ndp' l6 = Inl e) = (\<exists>e. ?f ndp_data l6 = Inl e)" for l6
    by (metis isl_def)
  show ?thesis
    using assms
    apply (simp add: DHCPTool_execute_def DHCPTool_try_def Let_def)
    apply (cases "get_dhcpv4_leases c"; simp)
    apply (cases "get_dhcpv6_leases c"; simp)
    apply (cases "get_arp_table c"; simp)
    subgoal for l4 l6 arp_data
      apply (cases "mapE (lease_entry lx (neighbor_set ''ip'' arp_data) (neighbor_set ''mac'' arp_data)) l4"; simp)
      using *[of l6]
      apply (cases "?f ndp_data l6"; cases "?f ndp' l6"; simp)
      done
    done
qed

lemma dhcpv6_independent_of_arp:
  assumes "get_arp_table c = Inr arp_data"
  shows "dhcpv6 (DHCPTool_execute estr lx (Some (c\<lparr>get_arp_table := Inr arp'\<rparr>)) params) =
         dhcpv6 (DHCPTool_execute estr lx (Some c) params)"
proof -
  let ?f = "\<lambda>n l. mapE (lease_entry lx (neighbor_set ''ip'' n) (neighbor_set ''mac'' n)) l"
  have "isl (?f arp' l4) = isl (?f arp_data l4)" for l4
    by (rule isl_lease_entries)
  then have *: "(\<exists>e. ?f arp' l4 = Inl e) = (\<exists>e. ?f arp_data l4 = Inl e)" for l4
    by (metis isl_def)
  show ?thesis
    using assms
    apply (simp add: DHCPTool_execute_def DHCPTool_try_def Let_def)
    apply (cases "get_dhcpv4_leases c"; simp)
    apply (cases "get_dhcpv6_leases c"; simp)
    apply (cases "get_ndp_table c"; simp)
    subgoal for l4 l6 ndp_data
      using *[of l4]
      apply (cases "?f arp_data l4"; cases "?f arp' l4"; simp)
      apply (cases "?f ndp_data l6"; simp)
      done
    done
qed

lemmas dhcp_eval = DHCPTool_execute_def DHCPTool_try_def lease_entry_def model_dump_def
  DHCPLease_def normalize_lease_entry_def actual_status_def neighbor_set_def py_in_def dget_def
  dget_default_def has_key_def lax_exact_def Let_def

text \<open>
  Claim C1. When \<open>DHCPTool.execute\<close> succeeds, it returns one entry per lease, in
  order, and the \<open>actual_status\<close> of a DHCPv4 entry is \<open>Online\<close> exactly when the
  lease's ip (an \<open>address\<close> field counting as ip) is in the set of ips of the ARP
  table, or its mac is in the set of macs of the ARP table, or its raw \<open>online\<close> flag
  is truthy, and \<open>Offline\<close> otherwise; a DHCPv6 entry is decided the same way from the
  NDP table. The sets are the ones the code builds: the non-empty \<open>ip\<close> and \<open>mac\<close>
  values of the table's rows. Replacing the NDP table changes no DHCPv4 entry and
  replacing the ARP table changes no DHCPv6 entry.
\<close>

theorem lease_status_reconciled:
  assumes l4: "get_dhcpv4_leases c = Inr l4" and l6: "get_dhcpv6_leases c = Inr l6"
    and arp: "get_arp_table c = Inr arp_data" and ndp: "get_ndp_table c = Inr ndp_data"
    and ok: "status (DHCPTool_execute estr lx (Some c) params) = ''success''"
  shows "let r = DHCPTool_execute estr lx (Some c) params in
           length (dhcpv4 r) = length l4 \<and> length (dhcpv6 r) = length l6 \<and>
           (\<forall>i<length l4.
              let lease = normalize_lease_entry (l4 ! i) in
              dget (dhcpv4 r ! i) ''actual_status'' =
                PStr (if py_in (dget lease ''ip'') (neighbor_set ''ip'' arp_data) \<or>
                         py_in (dget lease ''mac'') (neighbor_set ''mac'' arp_data) \<or>
                         truthy (dget_default lease ''online'' (PBool False))
                      then ''Online'' else ''Offline'')) \<and>
           (\<forall>i<length l6.
              let lease = normalize_lease_entry (l6 ! i) in
              dget (dhcpv6 r ! i) ''actual_status'' =
                PStr (if py_in (dget lease ''ip'') (neighbor_set ''ip'' ndp_data) \<or>
                         py_in (dget lease ''mac'') (neighbor_set ''mac'' ndp_data) \<or>
                         truthy (dget_default lease ''online'' (PBool False))
                      then ''Online'' else ''Offline'')) \<and>
           (\<forall>ndp'. dhcpv4 (DHCPTool_execute estr lx (Some (c\<lparr>get_ndp_table := Inr ndp'\<rparr>)) params)
                     = dhcpv4 r) \<and>
           (\<forall>arp'. dhcpv6 (DHCPTool_execute estr lx (Some (c\<lparr>get_arp_table := Inr arp'\<rparr>)) params)
                     = dhcpv6 r)"
proof -
  let ?r = "DHCPTool_execute estr lx (Some c) params"
  from DHCPTool_try_Inr[OF DHCPTool_execute_success[OF ok]] l4 l6 arp ndp
  have m4: "mapE (lease_entry lx (neighbor_set ''ip'' arp_data) (neighbor_set ''mac'' arp_data)) l4
              = Inr (dhcpv4 ?r)"
    and m6: "mapE (lease_entry lx (neighbor_set ''ip'' ndp_data) (neighbor_set ''mac'' ndp_data)) l6
              = Inr (dhcpv6 ?r)"
    by auto
  note a4 = mapE_Inr[OF m4] and a6 = mapE_Inr[OF m6]
  have s4: "dget (dhcpv4 ?r ! i) ''actual_status'' =
        PStr (actual_status (neighbor_set ''ip'' arp_data) (neighbor_set ''mac'' arp_data)
                (normalize_lease_entry (l4 ! i)))"
    if "i < length l4" for i
    using a4 that by (intro lease_entry_status[where lx=lx]) simp
  have s6: "dget (dhcpv6 ?r ! i) ''actual_status'' =
        PStr (actual_status (neighbor_set ''ip'' ndp_data) (neighbor_set ''mac'' ndp_data)
                (normalize_lease_entry (l6 ! i)))"
    if "i < length l6" for i
    using a6 that by (intro lease_entry_status[where lx=lx]) simp
  have i4: "dhcpv4 (DHCPTool_execute estr lx (Some (c\<lparr>get_ndp_table := Inr ndp'\<rparr>)) params)
              = dhcpv4 ?r" for ndp'
    by (rule dhcpv4_independent_of_ndp[OF ndp])
  have i6: "dhcpv6 (DHCPTool_execute estr lx (Some (c\<lparr>get_arp_table := Inr arp'\<rparr>)) params)
              = dhcpv6 ?r" for arp'
    by (rule dhcpv6_independent_of_arp[OF arp])
  show ?thesis
    unfolding Let_def
    using a4 a6 s4 s6 i4 i6 by (simp add: actual_status_def Let_def)
qed

theorem lease_status_reconciled_witness:
  "status (DHCPTool_execute (\<lambda>e. []) lax_exact (Some lan_client) []) = ''success'' \<and>
   dget (dhcpv4 (DHCPTool_execute (\<lambda>e. []) lax_exact (Some lan_client) []) ! 0) ''online''
     = PBool False \<and>
   dget (dhcpv4 (DHCPTool_execute (\<lambda>e. []) lax_exact (Some lan_client) []) ! 0) ''actual_status''
     = PStr ''Online'' \<and>
   dget (dhcpv6 (DHCPTool_execute (\<lambda>e. []) lax_exact (Some lan_client) []) ! 0) ''actual_status''
     = PStr ''Offline''"
proof -
  have l4: "get_dhcpv4_leases lan_client =
      Inr [[(''address'', PStr ''10.0.0.5''), (''mac'', PStr ''aa:bb''), (''online'', PBool False)]]"
    and l6: "get_dhcpv6_leases lan_client =
      Inr [[(''ip'', PStr ''fe80::5''), (''mac'', PStr ''cc:dd''), (''online'', PBool False)]]"
    and arp: "get_arp_table lan_client =
      Inr [[(''ip'', PStr ''10.0.0.5''), (''mac'', PStr ''aa:bb''), (''intf'', PStr ''em0'')]]"
    and ndp: "get_ndp_table lan_client = Inr []"
    by (simp_all add: lan_client_def)
  have ok: "status (DHCPTool_execute (\<lambda>e. []) lax_exact (Some lan_client) []) = ''success''"
    by (simp add: lan_client_def dhcp_eval)
  have on: "dget (dhcpv4 (DHCPTool_execute (\<lambda>e. []) lax_exact (Some lan_client) []) ! 0) ''online''
      = PBool False"
    by (simp add: lan_client_def dhcp_eval)
  from lease_status_reconciled[OF l4 l6 arp ndp ok] ok on show ?thesis
    by (simp add: Let_def normalize_lease_entry_def neighbor_set_def py_in_def dget_def
          dget_default_def has_key_def)
qed

section \<open>The parameters of the dhcp tool\<close>

text \<open>
  Claim C9. The catalogue declares a \<open>search\<close> property for the dhcp tool, and
  \<open>DHCPTool.execute\<close> returns the same result for any two argument dictionaries.
\<close>

theorem dhcp_params_ignored:
  "''search'' \<in> set (declared_properties ''dhcp'') \<and>
   DHCPTool_execute estr lx cl p1 = DHCPTool_execute estr lx cl p2"
  by (simp add: declared_properties_def list_tools_def DHCPTool_execute_def)

theorem dhcp_params_ignored_witness:
  "DHCPTool_execute (\<lambda>e. []) lax_exact (Some lan_client) [(''search'', PStr ''trogdor'')] =
   DHCPTool_execute (\<lambda>e. []) lax_exact (Some lan_client) []"
  using dhcp_params_ignored[of "\<lambda>e. []" lax_exact "Some lan_client"
          "[(''search'', PStr ''trogdor'')]" "[]"]
  by simp


section \<open>The push channel\<close>

lemma on_queue_append: "on_queue q (A @ B) = on_queue q A @ on_queue q B"
  by (simp add: on_queue_def)

lemma for_client_append: "for_client c (A @ B) = for_client c A @ for_client c B"
  by (simp add: for_client_def)

lemma only_for_append: "only_for c q (A @ B) \<longleftrightarrow> only_for c q A \<and> only_for c q B"
  by (auto simp: only_for_def)

lemma ascending_snoc:
  assumes "ascending G" "\<forall>u \<in> set G. fst u = c \<longrightarrow> fst (snd u) \<le> q"
  shows "ascending (G @ [(c, q, e)])"
  unfolding ascending_def
proof (intro allI impI ballI)
  fix A t B u
  assume eq: "G @ [(c, q, e)] = A @ t # B" and u: "u \<in> set A" and f: "fst u = fst t"
  show "fst (snd u) \<le> fst (snd t)"
  proof (cases B rule: rev_cases)
    case Nil
    with eq have "A = G" "t = (c, q, e)" by simp_all
    with assms(2) u f show ?thesis by simp
  next
    case (snoc B' b)
    with eq have "G = A @ t # B'" by simp
    with assms(1) u f show ?thesis unfolding ascending_def by blast
  qed
qed

lemma on_queue_split:
  assumes "on_queue q G = us @ Some h # ws"
  shows "\<exists>A c B. G = A @ (c, q, h) # B \<and> on_queue q A = us \<and> on_queue q B = ws"
  using assms
proof (induction G arbitrary: us)
  case Nil
  then show ?case by (simp add: on_queue_def)
next
  case (Cons t G)
  show ?case
  proof (cases "fst (snd t) = q")
    case False
    with Cons.prems have "on_queue q G = us @ Some h # ws" by (simp add: on_queue_def)
    from Cons.IH[OF this] obtain A c B where
      "G = A @ (c, q, h) # B" "on_queue q A = us" "on_queue q B = ws" by blast
    with False have "t # G = (t # A) @ (c, q, h) # B \<and> on_queue q (t # A) = us \<and> on_queue q B = ws"
      by (simp add: on_queue_def)
    then show ?thesis by blast
  next
    case True
    then have hd: "on_queue q (t # G) = Some (snd (snd t)) # on_queue q G"
      by (simp add: on_queue_def)
    show ?thesis
    proof (cases us)
      case Nil
      with Cons.prems hd have "snd (snd t) = h" "on_queue q G = ws" by simp_all
      with True have "t # G = [] @ (fst t, q, h) # G \<and> on_queue q [] = us \<and> on_queue q G = ws"
        using Nil by (auto simp: on_queue_def)
      then show ?thesis by blast
    next
      case (Cons u us')
      with Cons.prems hd have "on_queue q G = us' @ Some h # ws" "u = Some (snd (snd t))" by simp_all
      from Cons.IH[OF this(1)] obtain A c B where
        "G = A @ (c, q, h) # B" "on_queue q A = us'" "on_queue q B = ws" by blast
      with True Cons \<open>u = Some (snd (snd t))\<close>
      have "t # G = (t # A) @ (c, q, h) # B \<and> on_queue q (t # A) = us \<and> on_queue q B = ws"
        by (simp add: on_queue_def)
      then show ?thesis by blast
    qed
  qed
qed

lemma broker_ok_put:
  assumes ok: "broker_ok s G" and reg: "map_of (client_connections s) c = Some q"
  shows "broker_ok (queue_put q (Some e) s) (G @ [(c, q, e)])"
proof -
  from ok reg have q: "q < next_queue s" and own: "only_for c q G"
    and inj: "\<forall>d. map_of (client_connections s) d = Some q \<longrightarrow> d = c"
    and newest: "\<forall>t \<in> set G. fst t = c \<longrightarrow> fst (snd t) \<le> q"
    unfolding broker_ok_def by blast+
  from ok have asc: "ascending G" and alloc: "\<forall>t \<in> set G. fst (snd t) < next_queue s"
    and items: "\<And>q'. suffix (queue_items s q') (on_queue q' G)"
    and regs: "\<And>c' q'. map_of (client_connections s) c' = Some q' \<Longrightarrow>
        q' < next_queue s \<and> only_for c' q' G \<and>
        (\<forall>d. map_of (client_connections s) d = Some q' \<longrightarrow> d = c') \<and>
        (\<forall>t \<in> set G. fst t = c' \<longrightarrow> fst (snd t) \<le> q')"
    unfolding broker_ok_def by blast+
  have 1: "q' < next_queue s \<and> only_for c' q' (G @ [(c, q, e)]) \<and>
        (\<forall>d. map_of (client_connections s) d = Some q' \<longrightarrow> d = c') \<and>
        (\<forall>t \<in> set (G @ [(c, q, e)]). fst t = c' \<longrightarrow> fst (snd t) \<le> q')"
    if r: "map_of (client_connections s) c' = Some q'" for c' q'
  proof -
    from regs[OF r] have a: "q' < next_queue s" "only_for c' q' G"
      "\<forall>d. map_of (client_connections s) d = Some q' \<longrightarrow> d = c'"
      "\<forall>t \<in> set G. fst t = c' \<longrightarrow> fst (snd t) \<le> q'" by blast+
    have "only_for c' q' [(c, q, e)]"
      using a(3) reg by (auto simp: only_for_def)
    moreover have "c = c' \<longrightarrow> q \<le> q'" using r reg by auto
    ultimately show ?thesis using a by (auto simp: only_for_append)
  qed
  have 2: "\<forall>t \<in> set (G @ [(c, q, e)]). fst (snd t) < next_queue s"
    using alloc q by auto
  have 3: "suffix (queue_items (queue_put q (Some e) s) q') (on_queue q' (G @ [(c, q, e)]))" for q'
    using items[of q'] by (auto simp: queue_put_def on_queue_append on_queue_def)
  have 4: "ascending (G @ [(c, q, e)])"
    by (rule ascending_snoc[OF asc newest])
  show ?thesis
    unfolding broker_ok_def using 1 2 3 4 by (simp add: queue_put_def)
qed

lemma broker_ok_take:
  assumes ok: "broker_ok s G" and hd: "queue_items s q = item # rest"
  shows "broker_ok (s\<lparr>queue_items := (queue_items s)(q := rest)\<rparr>) G"
proof -
  from ok have "suffix (queue_items s q) (on_queue q G)" unfolding broker_ok_def by blast
  with hd have "suffix rest (on_queue q G)" by (auto dest: suffix_ConsD)
  with ok show ?thesis unfolding broker_ok_def by simp
qed

lemma on_queue_fresh:
  assumes "\<forall>t \<in> set G. fst (snd t) < n"
  shows "on_queue n G = []"
  using assms by (auto simp: on_queue_def filter_empty_conv)

lemma broker_ok_register:
  assumes ok: "broker_ok s G"
  shows "broker_ok (register c s) G"
proof -
  let ?n = "next_queue s"
  from ok have asc: "ascending G" and alloc: "\<forall>t \<in> set G. fst (snd t) < ?n"
    and items: "\<And>q'. suffix (queue_items s q') (on_queue q' G)"
    and regs: "\<And>c' q'. map_of (client_connections s) c' = Some q' \<Longrightarrow>
        q' < ?n \<and> only_for c' q' G \<and>
        (\<forall>d. map_of (client_connections s) d = Some q' \<longrightarrow> d = c') \<and>
        (\<forall>t \<in> set G. fst t = c' \<longrightarrow> fst (snd t) \<le> q')"
    unfolding broker_ok_def by blast+
  have m: "map_of (client_connections (register c s)) c' =
      (if c' = c then Some ?n else map_of (client_connections s) c')" for c'
    by (simp add: register_def AList.update_conv')
  have fresh: "only_for c ?n G" using alloc by (auto simp: only_for_def)
  have 1: "q' < Suc ?n \<and> only_for c' q' G \<and>
        (\<forall>d. map_of (client_connections (register c s)) d = Some q' \<longrightarrow> d = c') \<and>
        (\<forall>t \<in> set G. fst t = c' \<longrightarrow> fst (snd t) \<le> q')"
    if r: "map_of (client_connections (register c s)) c' = Some q'" for c' q'
  proof (cases "c' = c")
    case True
    with r m have q': "q' = ?n" by simp
    have "d = c" if "map_of (client_connections (register c s)) d = Some ?n" for d
    proof (rule ccontr)
      assume "d \<noteq> c"
      with that m have "map_of (client_connections s) d = Some ?n" by simp
      from regs[OF this] show False by simp
    qed
    with True q' fresh alloc show ?thesis by (auto simp: less_imp_le)
  next
    case False
    with r m have r': "map_of (client_connections s) c' = Some q'" by simp
    from regs[OF r'] have a: "q' < ?n" "only_for c' q' G"
      "\<forall>d. map_of (client_connections s) d = Some q' \<longrightarrow> d = c'"
      "\<forall>t \<in> set G. fst t = c' \<longrightarrow> fst (snd t) \<le> q'" by blast+
    have "d = c'" if "map_of (client_connections (register c s)) d = Some q'" for d
      using that m[of d] a(1,3) by (auto split: if_splits)
    with a show ?thesis by auto
  qed
  have 2: "\<forall>t \<in> set G. fst (snd t) < Suc ?n" using alloc by (auto simp: less_SucI)
  have 3: "suffix (queue_items (register c s) q') (on_queue q' G)" for q'
    using items[of q'] by (simp add: register_def)
  show ?thesis
    unfolding broker_ok_def using 1 2 3 asc by (simp add: register_def)
qed

lemma map_of_cleanup: "map_of (client_connections (cleanup c s)) c = None"
  by (cases "map_of (client_connections s) c") (simp_all add: cleanup_def AList.delete_conv')

lemma map_of_cleanup_other:
  "map_of (client_connections (cleanup c s)) d = Some q \<Longrightarrow> map_of (client_connections s) d = Some q"
  by (auto simp: cleanup_def AList.delete_conv' split: if_splits)

lemma cleanup_keeps: "queue_items (cleanup c s) = queue_items s" "next_queue (cleanup c s) = next_queue s"
  by (simp_all add: cleanup_def)

lemma broker_ok_cleanup:
  assumes ok: "broker_ok s G"
  shows "broker_ok (cleanup c s) G"
  using ok unfolding broker_ok_def cleanup_keeps
  by (meson map_of_cleanup_other)


lemma stream_okI:
  assumes "stream_gen r = Created \<Longrightarrow> yielded r = []"
    and "stream_gen r \<noteq> Created \<Longrightarrow> stream_gen r \<noteq> Finished \<Longrightarrow> yielded r \<noteq> []"
    and "yielded r = [] \<or> hd (yielded r) = connected_event jd (stream_client r)"
    and "\<And>q. stream_gen r = Awaiting q \<Longrightarrow>
        q < next_queue s \<and> only_for (stream_client r) q G \<and>
        (\<forall>d. map_of (client_connections s) d = Some q \<longrightarrow> d = stream_client r)"
    and "k \<le> length G"
    and "subseq (tl (yielded r)) (for_client (stream_client r) (take k G))"
    and "stream_gen r \<noteq> Finished \<Longrightarrow>
        holds_later (stream_client r) (frontier (stream_client r) (stream_gen r) s) s G k"
  shows "stream_ok jd s G r"
  unfolding stream_ok_def using assms by blast

lemma holds_later_mono:
  assumes "holds_later c lb s G k" "lb \<le> lb'"
  shows "holds_later c lb' s G k"
  using assms unfolding holds_later_def by (meson le_trans)

text \<open>What a change of the broker by anyone leaves of a stream that fits the log.\<close>

lemma stream_ok_put:
  assumes bok: "broker_ok s G" and ok: "stream_ok jd s G r"
    and reg: "map_of (client_connections s) c = Some q"
  shows "stream_ok jd (queue_put q (Some e) s) (G @ [(c, q, e)]) r"
proof -
  let ?s = "queue_put q (Some e) s" and ?G = "G @ [(c, q, e)]"
  have same: "client_connections ?s = client_connections s" "next_queue ?s = next_queue s"
    by (simp_all add: queue_put_def)
  have fr: "frontier c' g ?s = frontier c' g s" for c' g
    by (cases g) (simp_all add: frontier_def same split: option.splits)
  from ok[unfolded stream_ok_def] obtain k where a:
    "stream_gen r = Created \<longrightarrow> yielded r = []"
    "stream_gen r \<noteq> Created \<and> stream_gen r \<noteq> Finished \<longrightarrow> yielded r \<noteq> []"
    "yielded r = [] \<or> hd (yielded r) = connected_event jd (stream_client r)"
    and b: "\<forall>q. stream_gen r = Awaiting q \<longrightarrow>
        q < next_queue s \<and> only_for (stream_client r) q G \<and>
        (\<forall>d. map_of (client_connections s) d = Some q \<longrightarrow> d = stream_client r)"
    and k: "k \<le> length G"
    and sub: "subseq (tl (yielded r)) (for_client (stream_client r) (take k G))"
    and later: "stream_gen r \<noteq> Finished \<longrightarrow>
        holds_later (stream_client r) (frontier (stream_client r) (stream_gen r) s) s G k"
    by blast
  show ?thesis
  proof (rule stream_okI[where k = k])
    fix q' assume g: "stream_gen r = Awaiting q'"
    from b g have b': "q' < next_queue s" "only_for (stream_client r) q' G"
      "\<forall>d. map_of (client_connections s) d = Some q' \<longrightarrow> d = stream_client r" by blast+
    from b'(3) reg have "only_for (stream_client r) q' [(c, q, e)]"
      by (auto simp: only_for_def)
    with b' show "q' < next_queue ?s \<and> only_for (stream_client r) q' ?G \<and>
        (\<forall>d. map_of (client_connections ?s) d = Some q' \<longrightarrow> d = stream_client r)"
      by (simp add: same only_for_append)
  next
    show "k \<le> length ?G" using k by simp
  next
    show "subseq (tl (yielded r)) (for_client (stream_client r) (take k ?G))"
      using sub k by simp
  next
    assume "stream_gen r \<noteq> Finished"
    with later have l: "holds_later (stream_client r) (frontier (stream_client r) (stream_gen r) s) s G k"
      by simp
    show "holds_later (stream_client r) (frontier (stream_client r) (stream_gen r) ?s) ?s ?G k"
      unfolding holds_later_def fr
    proof (intro allI impI)
      fix q' assume h: "frontier (stream_client r) (stream_gen r) s \<le> q' \<and>
          only_for (stream_client r) q' ?G"
      then have "suffix (queue_items s q') (on_queue q' (drop k G))"
        using l unfolding holds_later_def by (simp add: only_for_append)
      then show "suffix (queue_items ?s q') (on_queue q' (drop k ?G))"
        using k by (auto simp: queue_put_def on_queue_append on_queue_def)
    qed
  qed (use a in blast)+
qed

lemma stream_ok_take:
  assumes ok: "stream_ok jd s G r" and hd: "queue_items s q = item # rest"
  shows "stream_ok jd (s\<lparr>queue_items := (queue_items s)(q := rest)\<rparr>) G r"
proof -
  let ?s = "s\<lparr>queue_items := (queue_items s)(q := rest)\<rparr>"
  have fr: "frontier c' g ?s = frontier c' g s" for c' g
    by (cases g) (simp_all add: frontier_def split: option.splits)
  have l: "holds_later c' lb ?s G k" if h: "holds_later c' lb s G k" for c' lb k
    unfolding holds_later_def
  proof (intro allI impI)
    fix q' assume p: "lb \<le> q' \<and> only_for c' q' G"
    with h have "suffix (queue_items s q') (on_queue q' (drop k G))"
      unfolding holds_later_def by blast
    then show "suffix (queue_items ?s q') (on_queue q' (drop k G))"
      using hd by (cases "q' = q") (auto dest: suffix_ConsD)
  qed
  from ok[unfolded stream_ok_def] obtain k where a:
    "stream_gen r = Created \<longrightarrow> yielded r = []"
    "stream_gen r \<noteq> Created \<and> stream_gen r \<noteq> Finished \<longrightarrow> yielded r \<noteq> []"
    "yielded r = [] \<or> hd (yielded r) = connected_event jd (stream_client r)"
    and b: "\<forall>q. stream_gen r = Awaiting q \<longrightarrow>
        q < next_queue s \<and> only_for (stream_client r) q G \<and>
        (\<forall>d. map_of (client_connections s) d = Some q \<longrightarrow> d = stream_client r)"
    and k: "k \<le> length G"
    and sub: "subseq (tl (yielded r)) (for_client (stream_client r) (take k G))"
    and later: "stream_gen r \<noteq> Finished \<longrightarrow>
        holds_later (stream_client r) (frontier (stream_client r) (stream_gen r) s) s G k"
    by blast
  show ?thesis
  proof (rule stream_okI[where k = k])
    fix q' assume g: "stream_gen r = Awaiting q'"
    with b show "q' < next_queue ?s \<and> only_for (stream_client r) q' G \<and>
        (\<forall>d. map_of (client_connections ?s) d = Some q' \<longrightarrow> d = stream_client r)"
      by simp
  next
    assume "stream_gen r \<noteq> Finished"
    with later l show
      "holds_later (stream_client r) (frontier (stream_client r) (stream_gen r) ?s) ?s G k"
      unfolding fr by blast
  qed (use a k sub in blast)+
qed

lemma stream_ok_register:
  assumes bok: "broker_ok s G" and ok: "stream_ok jd s G r"
  shows "stream_ok jd (register c s) G r"
proof -
  let ?s = "register c s" and ?n = "next_queue s"
  have m: "map_of (client_connections ?s) c' =
      (if c' = c then Some ?n else map_of (client_connections s) c')" for c'
    by (simp add: register_def AList.update_conv')
  have nq: "next_queue ?s = Suc ?n" by (simp add: register_def)
  from bok have regs: "\<And>c' q'. map_of (client_connections s) c' = Some q' \<Longrightarrow> q' < ?n"
    unfolding broker_ok_def by blast
  have fr: "frontier c' g s \<le> frontier c' g ?s" for c' g
    using regs[of c'] by (cases g; cases "map_of (client_connections s) c'")
      (auto simp: frontier_def m nq less_imp_le)
  from ok[unfolded stream_ok_def] obtain k where a:
    "stream_gen r = Created \<longrightarrow> yielded r = []"
    "stream_gen r \<noteq> Created \<and> stream_gen r \<noteq> Finished \<longrightarrow> yielded r \<noteq> []"
    "yielded r = [] \<or> hd (yielded r) = connected_event jd (stream_client r)"
    and b: "\<forall>q. stream_gen r = Awaiting q \<longrightarrow>
        q < next_queue s \<and> only_for (stream_client r) q G \<and>
        (\<forall>d. map_of (client_connections s) d = Some q \<longrightarrow> d = stream_client r)"
    and k: "k \<le> length G"
    and sub: "subseq (tl (yielded r)) (for_client (stream_client r) (take k G))"
    and later: "stream_gen r \<noteq> Finished \<longrightarrow>
        holds_later (stream_client r) (frontier (stream_client r) (stream_gen r) s) s G k"
    by blast
  show ?thesis
  proof (rule stream_okI[where k = k])
    fix q' assume g: "stream_gen r = Awaiting q'"
    with b show "q' < next_queue ?s \<and> only_for (stream_client r) q' G \<and>
        (\<forall>d. map_of (client_connections ?s) d = Some q' \<longrightarrow> d = stream_client r)"
      by (auto simp: m nq split: if_splits)
  next
    assume "stream_gen r \<noteq> Finished"
    with later have l: "holds_later (stream_client r) (frontier (stream_client r) (stream_gen r) s) s G k"
      by simp
    have "holds_later (stream_client r) (frontier (stream_client r) (stream_gen r) s) ?s G k"
      using l unfolding holds_later_def by (auto simp: register_def)
    then show "holds_later (stream_client r) (frontier (stream_client r) (stream_gen r) ?s) ?s G k"
      by (rule holds_later_mono) (rule fr)
  qed (use a k sub in blast)+
qed

lemma stream_ok_cleanup:
  assumes bok: "broker_ok s G" and ok: "stream_ok jd s G r"
  shows "stream_ok jd (cleanup c s) G r"
proof -
  let ?s = "cleanup c s"
  from bok have regs: "\<And>c' q'. map_of (client_connections s) c' = Some q' \<Longrightarrow> q' < next_queue s"
    unfolding broker_ok_def by blast
  have fr: "frontier c' g s \<le> frontier c' g ?s" for c' g
  proof (cases "map_of (client_connections ?s) c'")
    case None
    then show ?thesis using regs[of c']
      by (cases g; cases "map_of (client_connections s) c'")
        (auto simp: frontier_def cleanup_keeps less_imp_le)
  next
    case (Some q')
    from map_of_cleanup_other[OF this] Some show ?thesis
      by (cases g) (auto simp: frontier_def)
  qed
  from ok[unfolded stream_ok_def] obtain k where a:
    "stream_gen r = Created \<longrightarrow> yielded r = []"
    "stream_gen r \<noteq> Created \<and> stream_gen r \<noteq> Finished \<longrightarrow> yielded r \<noteq> []"
    "yielded r = [] \<or> hd (yielded r) = connected_event jd (stream_client r)"
    and b: "\<forall>q. stream_gen r = Awaiting q \<longrightarrow>
        q < next_queue s \<and> only_for (stream_client r) q G \<and>
        (\<forall>d. map_of (client_connections s) d = Some q \<longrightarrow> d = stream_client r)"
    and k: "k \<le> length G"
    and sub: "subseq (tl (yielded r)) (for_client (stream_client r) (take k G))"
    and later: "stream_gen r \<noteq> Finished \<longrightarrow>
        holds_later (stream_client r) (frontier (stream_client r) (stream_gen r) s) s G k"
    by blast
  show ?thesis
  proof (rule stream_okI[where k = k])
    fix q' assume g: "stream_gen r = Awaiting q'"
    with b show "q' < next_queue ?s \<and> only_for (stream_client r) q' G \<and>
        (\<forall>d. map_of (client_connections ?s) d = Some q' \<longrightarrow> d = stream_client r)"
      by (auto simp: cleanup_keeps dest: map_of_cleanup_other)
  next
    assume "stream_gen r \<noteq> Finished"
    with later have l: "holds_later (stream_client r) (frontier (stream_client r) (stream_gen r) s) s G k"
      by simp
    have "holds_later (stream_client r) (frontier (stream_client r) (stream_gen r) s) ?s G k"
      using l unfolding holds_later_def by (simp add: cleanup_keeps)
    then show "holds_later (stream_client r) (frontier (stream_client r) (stream_gen r) ?s) ?s G k"
      by (rule holds_later_mono) (rule fr)
  qed (use a k sub in blast)+
qed

text \<open>What a stream's own moves leave of it.\<close>

lemma stream_ok_start:
  assumes ok: "stream_ok jd s G r" and g: "stream_gen r = Created"
  shows "stream_ok jd s G
    (r\<lparr>stream_gen := AtConnected, yielded := yielded r @ [connected_event jd (stream_client r)]\<rparr>)"
proof -
  from ok g have e: "yielded r = []" unfolding stream_ok_def by blast
  have fr: "frontier c AtConnected s = frontier c Created s" for c
    by (simp add: frontier_def)
  from ok g show ?thesis
    unfolding stream_ok_def by (simp add: e fr)
qed

lemma stream_ok_bind:
  assumes bok: "broker_ok s G" and ok: "stream_ok jd s G r"
    and g: "stream_gen r = AtConnected \<or> stream_gen r = AtEvent"
    and reg: "map_of (client_connections s) (stream_client r) = Some q"
  shows "stream_ok jd s G (r\<lparr>stream_gen := Awaiting q\<rparr>)"
proof -
  from bok reg have q: "q < next_queue s" "only_for (stream_client r) q G"
    "\<forall>d. map_of (client_connections s) d = Some q \<longrightarrow> d = stream_client r"
    unfolding broker_ok_def by blast+
  have fr: "frontier (stream_client r) (stream_gen r) s = q" "frontier (stream_client r) (Awaiting q) s = q"
    using g reg by (auto simp: frontier_def)
  from ok g q show ?thesis
    unfolding stream_ok_def by (auto simp: fr)
qed

lemma stream_ok_finish:
  assumes ok: "stream_ok jd s G r"
  shows "stream_ok jd s G (r\<lparr>stream_gen := Finished\<rparr>)"
  using ok unfolding stream_ok_def by auto

lemma stream_ok_yield:
  assumes bok: "broker_ok s G" and ok: "stream_ok jd s G r"
    and g: "stream_gen r = Awaiting q" and hd: "queue_items s q = Some h # rest"
  shows "stream_ok jd (s\<lparr>queue_items := (queue_items s)(q := rest)\<rparr>) G
    (r\<lparr>stream_gen := AtEvent, yielded := yielded r @ [h]\<rparr>)"
proof -
  let ?c = "stream_client r" and ?s = "s\<lparr>queue_items := (queue_items s)(q := rest)\<rparr>"
  let ?r = "r\<lparr>stream_gen := AtEvent, yielded := yielded r @ [h]\<rparr>"
  from ok[unfolded stream_ok_def] obtain k where a:
    "stream_gen r \<noteq> Created \<and> stream_gen r \<noteq> Finished \<longrightarrow> yielded r \<noteq> []"
    "yielded r = [] \<or> hd (yielded r) = connected_event jd ?c"
    and b: "\<forall>q. stream_gen r = Awaiting q \<longrightarrow>
        q < next_queue s \<and> only_for ?c q G \<and>
        (\<forall>d. map_of (client_connections s) d = Some q \<longrightarrow> d = ?c)"
    and k: "k \<le> length G"
    and sub: "subseq (tl (yielded r)) (for_client ?c (take k G))"
    and later: "stream_gen r \<noteq> Finished \<longrightarrow> holds_later ?c (frontier ?c (stream_gen r) s) s G k"
    by blast
  from a g have ne: "yielded r \<noteq> []" by simp
  from b g have qn: "q < next_queue s" and own: "only_for ?c q G" by blast+
  from later g have hl: "holds_later ?c q s G k" by (simp add: frontier_def)
  with own hd have "suffix (Some h # rest) (on_queue q (drop k G))"
    unfolding holds_later_def by (metis le_refl)
  then obtain us where "on_queue q (drop k G) = us @ Some h # rest"
    unfolding suffix_def by blast
  from on_queue_split[OF this] obtain A c' B where
    dk: "drop k G = A @ (c', q, h) # B" and oA: "on_queue q A = us" and oB: "on_queue q B = rest"
    by blast
  have G: "G = (take k G @ A) @ (c', q, h) # B"
    using dk by (metis append_take_drop_id append_assoc)
  then have "(c', q, h) \<in> set G" by (metis in_set_conv_decomp)
  with own have c': "c' = ?c" unfolding only_for_def by auto
  let ?k = "Suc (k + length A)"
  have G2: "G = (take k G @ A @ [(?c, q, h)]) @ B"
    using G c' by simp
  have len: "length (take k G @ A @ [(?c, q, h)]) = ?k" using k by simp
  have tk: "take ?k G = take k G @ A @ [(?c, q, h)]" and dr: "drop ?k G = B"
    using G2 len by (metis append_eq_conv_conj)+
  have k': "?k \<le> length G" using G2 len by (metis le_add1 length_append)
  have "subseq (tl (yielded r) @ [h]) (for_client ?c (take k G) @ (for_client ?c A @ [h]))"
    by (rule list_emb_append_mono[OF sub]) (simp add: list_emb_append2)
  then have sub': "subseq (tl (yielded ?r)) (for_client ?c (take ?k G))"
    using ne by (simp add: tk for_client_append for_client_def)
  from bok have asc: "ascending G"
    and newest: "\<And>q'. map_of (client_connections s) ?c = Some q' \<Longrightarrow>
        (\<forall>t \<in> set G. fst t = ?c \<longrightarrow> fst (snd t) \<le> q')"
    unfolding broker_ok_def by blast+
  have fr: "q \<le> frontier ?c AtEvent ?s"
  proof (cases "map_of (client_connections s) ?c")
    case None
    with qn show ?thesis by (simp add: frontier_def)
  next
    case (Some q')
    from newest[OF Some] \<open>(c', q, h) \<in> set G\<close> c' have "q \<le> q'" by auto
    with Some show ?thesis by (simp add: frontier_def)
  qed
  have before: "\<forall>u \<in> set (take k G @ A). fst u = ?c \<longrightarrow> fst (snd u) \<le> q"
    using asc G c' unfolding ascending_def by (metis fst_conv snd_conv)
  have hl': "holds_later ?c (frontier ?c AtEvent ?s) ?s G ?k"
    unfolding holds_later_def dr
  proof (intro allI impI)
    fix q' assume p: "frontier ?c AtEvent ?s \<le> q' \<and> only_for ?c q' G"
    show "suffix (queue_items ?s q') (on_queue q' B)"
    proof (cases "q' = q")
      case True
      then show ?thesis by (simp add: oB)
    next
      case False
      with p fr have lt: "q < q'" by simp
      with p hl have s: "suffix (queue_items s q') (on_queue q' (drop k G))"
        unfolding holds_later_def by (simp add: less_imp_le)
      have "on_queue q' A = []"
      proof -
        have "fst (snd t) \<noteq> q'" if t: "t \<in> set A" for t
        proof
          assume e: "fst (snd t) = q'"
          from t dk have "t \<in> set G" by (metis in_set_dropD in_set_conv_decomp Un_iff set_append)
          with p e have "fst t = ?c" unfolding only_for_def by blast
          with before t have "fst (snd t) \<le> q" by simp
          with e lt show False by simp
        qed
        then show ?thesis by (auto simp: on_queue_def filter_empty_conv)
      qed
      with s False show ?thesis by (simp add: dk on_queue_append on_queue_def)
    qed
  qed
  show ?thesis
  proof (rule stream_okI[where k = ?k])
    show "yielded ?r = [] \<or> hd (yielded ?r) = connected_event jd (stream_client ?r)"
      using a ne by simp
  next
    show "?k \<le> length G" by (rule k')
  next
    show "subseq (tl (yielded ?r)) (for_client (stream_client ?r) (take ?k G))"
      using sub' by simp
  next
    show "holds_later (stream_client ?r) (frontier (stream_client ?r) (stream_gen ?r) ?s) ?s G ?k"
      using hl' by simp
  qed simp_all
qed

text \<open>One resumption of a generator, one cancellation, one request.\<close>

lemma await_get_ok:
  assumes bok: "broker_ok s G" and all: "\<forall>r' \<in> R. stream_ok jd s G r'"
    and ok: "stream_ok jd s G r" and g: "stream_gen r = Awaiting q"
    and res: "await_get (stream_client r) q s = (out, s', g')"
  shows "broker_ok s' G \<and> (\<forall>r' \<in> R. stream_ok jd s' G r') \<and>
         stream_ok jd s' G
           (r\<lparr>stream_gen := g', yielded := yielded r @ (case out of Yielded e \<Rightarrow> [e] | _ \<Rightarrow> [])\<rparr>)"
proof (cases "queue_items s q")
  case Nil
  with res have "out = Pending" "s' = s" "g' = Awaiting q" by (simp_all add: await_get_def)
  moreover have "r\<lparr>stream_gen := Awaiting q, yielded := yielded r @ []\<rparr> = r" using g by simp
  ultimately show ?thesis using bok all ok by simp
next
  case (Cons item rest)
  let ?s = "s\<lparr>queue_items := (queue_items s)(q := rest)\<rparr>"
  have b1: "broker_ok ?s G" by (rule broker_ok_take[OF bok Cons])
  have a1: "\<forall>r' \<in> R. stream_ok jd ?s G r'" using all stream_ok_take[OF _ Cons] by blast
  show ?thesis
  proof (cases item)
    case None
    with res Cons have o: "out = StopAsyncIteration" "s' = cleanup (stream_client r) ?s" "g' = Finished"
      by (simp_all add: await_get_def)
    have "stream_ok jd ?s G (r\<lparr>stream_gen := Finished\<rparr>)"
      by (rule stream_ok_finish[OF stream_ok_take[OF ok Cons]])
    then have "stream_ok jd s' G (r\<lparr>stream_gen := Finished\<rparr>)"
      unfolding o by (rule stream_ok_cleanup[OF b1])
    moreover have "broker_ok s' G" unfolding o by (rule broker_ok_cleanup[OF b1])
    moreover have "\<forall>r' \<in> R. stream_ok jd s' G r'"
      unfolding o using a1 stream_ok_cleanup[OF b1] by blast
    ultimately show ?thesis using o by simp
  next
    case (Some h)
    with res Cons have o: "out = Yielded h" "s' = ?s" "g' = AtEvent"
      by (simp_all add: await_get_def)
    from Cons Some have hd: "queue_items s q = Some h # rest" by simp
    from stream_ok_yield[OF bok ok g hd] b1 a1 o show ?thesis by simp
  qed
qed

lemma loop_turn_ok:
  assumes bok: "broker_ok s G" and all: "\<forall>r' \<in> R. stream_ok jd s G r'"
    and ok: "stream_ok jd s G r" and g: "stream_gen r = AtConnected \<or> stream_gen r = AtEvent"
    and res: "loop_turn (stream_client r) s = (out, s', g')"
  shows "broker_ok s' G \<and> (\<forall>r' \<in> R. stream_ok jd s' G r') \<and>
         stream_ok jd s' G
           (r\<lparr>stream_gen := g', yielded := yielded r @ (case out of Yielded e \<Rightarrow> [e] | _ \<Rightarrow> [])\<rparr>)"
proof (cases "map_of (client_connections s) (stream_client r)")
  case None
  with res have o: "out = Raised (KeyError (stream_client r))" "s' = s" "g' = Finished"
    by (simp_all add: loop_turn_def)
  from stream_ok_finish[OF ok] bok all o show ?thesis by simp
next
  case (Some q)
  let ?r = "r\<lparr>stream_gen := Awaiting q\<rparr>"
  have ok': "stream_ok jd s G ?r" by (rule stream_ok_bind[OF bok ok g Some])
  from res Some have "await_get (stream_client ?r) q s = (out, s', g')"
    by (simp add: loop_turn_def)
  from await_get_ok[OF bok all ok' _ this] show ?thesis by simp
qed

lemma gen_next_ok:
  assumes bok: "broker_ok s G" and all: "\<forall>r' \<in> R. stream_ok jd s G r'"
    and ok: "stream_ok jd s G r"
    and res: "gen_next jd (stream_client r) (s, stream_gen r) = (out, s', g')"
  shows "broker_ok s' G \<and> (\<forall>r' \<in> R. stream_ok jd s' G r') \<and>
         stream_ok jd s' G
           (r\<lparr>stream_gen := g', yielded := yielded r @ (case out of Yielded e \<Rightarrow> [e] | _ \<Rightarrow> [])\<rparr>)"
proof (cases "stream_gen r")
  case Created
  with res have o: "out = Yielded (connected_event jd (stream_client r))" "s' = s" "g' = AtConnected"
    by simp_all
  from stream_ok_start[OF ok Created] bok all o show ?thesis by simp
next
  case AtConnected
  let ?s = "register (stream_client r) s"
  have b1: "broker_ok ?s G" by (rule broker_ok_register[OF bok])
  have a1: "\<forall>r' \<in> R. stream_ok jd ?s G r'" using all stream_ok_register[OF bok] by blast
  have o1: "stream_ok jd ?s G r" by (rule stream_ok_register[OF bok ok])
  from res AtConnected have "loop_turn (stream_client r) ?s = (out, s', g')" by simp
  from loop_turn_ok[OF b1 a1 o1 _ this] AtConnected show ?thesis by simp
next
  case AtEvent
  with res have "loop_turn (stream_client r) s = (out, s', g')" by simp
  from loop_turn_ok[OF bok all ok _ this] AtEvent show ?thesis by simp
next
  case (Awaiting q)
  with res have "await_get (stream_client r) q s = (out, s', g')" by simp
  from await_get_ok[OF bok all ok Awaiting this] show ?thesis .
next
  case Finished
  with res have o: "out = StopAsyncIteration" "s' = s" "g' = Finished" by simp_all
  moreover have "r\<lparr>stream_gen := Finished, yielded := yielded r @ []\<rparr> = r" using Finished by simp
  ultimately show ?thesis using bok all ok by simp
qed

lemma gen_cancel_ok:
  assumes bok: "broker_ok s G" and all: "\<forall>r' \<in> R. stream_ok jd s G r'"
    and ok: "stream_ok jd s G r"
    and res: "gen_cancel (stream_client r) (s, stream_gen r) = (s', g')"
  shows "broker_ok s' G \<and> (\<forall>r' \<in> R. stream_ok jd s' G r') \<and>
         stream_ok jd s' G (r\<lparr>stream_gen := g'\<rparr>)"
proof -
  have fin: "g' = Finished" using res by (cases "stream_gen r") auto
  have "s' = s \<or> s' = cleanup (stream_client r) s"
    using res by (cases "stream_gen r") auto
  then show ?thesis
  proof
    assume "s' = s"
    with stream_ok_finish[OF ok] bok all fin show ?thesis by simp
  next
    assume s': "s' = cleanup (stream_client r) s"
    have "stream_ok jd s' G (r\<lparr>stream_gen := Finished\<rparr>)"
      unfolding s' by (rule stream_ok_cleanup[OF bok stream_ok_finish[OF ok]])
    moreover have "broker_ok s' G" unfolding s' by (rule broker_ok_cleanup[OF bok])
    moreover have "\<forall>r' \<in> R. stream_ok jd s' G r'"
      unfolding s' using all stream_ok_cleanup[OF bok] by blast
    ultimately show ?thesis using fin by simp
  qed
qed

lemma serve_Next:
  assumes "i < length (streams x)"
    and "gen_next jd (stream_client (streams x ! i)) (the_broker x, stream_gen (streams x ! i))
           = (out, s, g)"
  shows "serve jd (Next i) x =
     x\<lparr>the_broker := s,
       streams := (streams x)[i := (streams x ! i)\<lparr>stream_gen := g,
         yielded := yielded (streams x ! i) @ (case out of Yielded e \<Rightarrow> [e] | _ \<Rightarrow> [])\<rparr>]\<rparr>"
  using assms by (cases out) (simp_all add: Let_def)

lemma serve_ok:
  assumes ok: "server_ok jd x G"
  shows "\<exists>G'. server_ok jd (serve jd r x) G'"
proof -
  from ok have acc: "map (\<lambda>t. (fst t, snd (snd t))) G = accepted x"
    and bok: "broker_ok (the_broker x) G"
    and all: "\<forall>r \<in> set (streams x). stream_ok jd (the_broker x) G r"
    unfolding server_ok_def by blast+
  show ?thesis
  proof (cases r)
    case (Send target data obj)
    show ?thesis
    proof (cases "map_of (client_connections (the_broker x)) target")
      case None
      with Send have "serve jd r x = x" by (simp add: send_to_client_def)
      with ok show ?thesis by auto
    next
      case (Some q)
      let ?e = "make_event jd obj data"
      let ?s = "queue_put q (Some ?e) (the_broker x)" and ?G = "G @ [(target, q, ?e)]"
      from Send Some have s: "serve jd r x = x\<lparr>the_broker := ?s, accepted := accepted x @ [(target, ?e)]\<rparr>"
        by (simp add: send_to_client_def)
      have "broker_ok ?s ?G" by (rule broker_ok_put[OF bok Some])
      moreover have "\<forall>r \<in> set (streams x). stream_ok jd ?s ?G r"
        using all stream_ok_put[OF bok _ Some] by blast
      ultimately have "server_ok jd (serve jd r x) ?G"
        unfolding s server_ok_def using acc by simp
      then show ?thesis ..
    qed
  next
    case (Next i)
    show ?thesis
    proof (cases "i < length (streams x)")
      case False
      with Next ok show ?thesis by auto
    next
      case True
      let ?r = "streams x ! i"
      obtain out s g where res:
        "gen_next jd (stream_client ?r) (the_broker x, stream_gen ?r) = (out, s, g)"
        by (metis prod_cases3)
      let ?r' = "?r\<lparr>stream_gen := g, yielded := yielded ?r @ (case out of Yielded e \<Rightarrow> [e] | _ \<Rightarrow> [])\<rparr>"
      from True all have "stream_ok jd (the_broker x) G ?r" by simp
      from gen_next_ok[OF bok all this res] have
        b: "broker_ok s G" and a: "\<forall>r' \<in> set (streams x). stream_ok jd s G r'"
        and o: "stream_ok jd s G ?r'" by blast+
      have "\<forall>r' \<in> set ((streams x)[i := ?r']). stream_ok jd s G r'"
        using a o by (metis insert_iff set_update_subset_insert subsetD)
      then have "server_ok jd (serve jd r x) G"
        unfolding Next serve_Next[OF True res] server_ok_def using acc b by simp
      then show ?thesis ..
    qed
  next
    case (Cancel i)
    show ?thesis
    proof (cases "i < length (streams x)")
      case False
      with Cancel ok show ?thesis by auto
    next
      case True
      let ?r = "streams x ! i"
      obtain s g where res: "gen_cancel (stream_client ?r) (the_broker x, stream_gen ?r) = (s, g)"
        by (metis surj_pair)
      from True all have "stream_ok jd (the_broker x) G ?r" by simp
      from gen_cancel_ok[OF bok all this res] have
        b: "broker_ok s G" and a: "\<forall>r' \<in> set (streams x). stream_ok jd s G r'"
        and o: "stream_ok jd s G (?r\<lparr>stream_gen := g\<rparr>)" by blast+
      have "\<forall>r' \<in> set ((streams x)[i := ?r\<lparr>stream_gen := g\<rparr>]). stream_ok jd s G r'"
        using a o by (metis insert_iff set_update_subset_insert subsetD)
      then have "server_ok jd (serve jd r x) G"
        unfolding Cancel using True res acc b by (simp add: server_ok_def Let_def)
      then show ?thesis ..
    qed
  qed
qed

lemma interleave_ok:
  "\<exists>G. server_ok jd x G \<Longrightarrow> \<exists>G. server_ok jd (interleave jd rs x) G"
proof (induction rs arbitrary: x)
  case Nil
  then show ?case by simp
next
  case (Cons r rs)
  from Cons.prems obtain G where "server_ok jd x G" ..
  from serve_ok[OF this] have "\<exists>G'. server_ok jd (serve jd r x) G'" .
  from Cons.IH[OF this] show ?case by simp
qed

lemma startup_ok: "server_ok jd (startup cs) []"
  by (auto simp: server_ok_def startup_def no_clients_def broker_ok_def stream_ok_def
        new_stream_def on_queue_def only_for_def ascending_def holds_later_def for_client_def)

lemma map_update_same: "(map f xs)[i := f (xs ! i)] = map f xs"
  by (metis list_update_id map_update)

lemma serve_clients: "map stream_client (streams (serve jd r x)) = map stream_client (streams x)"
proof (cases r)
  case (Send target data obj)
  then show ?thesis
    by (cases "send_to_client jd obj target data (the_broker x)"; cases "fst (send_to_client jd obj target data (the_broker x))")
      (auto split: sum.splits)
next
  case (Next i)
  show ?thesis
  proof (cases "i < length (streams x)")
    case True
    obtain out s g where res:
      "gen_next jd (stream_client (streams x ! i)) (the_broker x, stream_gen (streams x ! i)) = (out, s, g)"
      by (metis prod_cases3)
    show ?thesis unfolding Next serve_Next[OF True res]
      by (simp add: map_update map_update_same)
  qed (simp add: Next)
next
  case (Cancel i)
  show ?thesis
  proof (cases "i < length (streams x)")
    case True
    then show ?thesis unfolding Cancel
      by (simp add: Let_def map_update map_update_same split: prod.splits)
  qed (simp add: Cancel)
qed

lemma interleave_clients:
  "map stream_client (streams (interleave jd rs x)) = map stream_client (streams x)"
  by (induction rs arbitrary: x) (simp_all add: serve_clients)

lemma sent_to_log: "sent_to c (map (\<lambda>t. (fst t, snd (snd t))) G) = for_client c G"
  by (induction G) (simp_all add: sent_to_def for_client_def)

lemma streams_in_order:
  assumes i: "i < length cs"
  shows "stream_client (streams (interleave jd rs (startup cs)) ! i) = cs ! i \<and>
         (yielded (streams (interleave jd rs (startup cs)) ! i) = [] \<or>
          hd (yielded (streams (interleave jd rs (startup cs)) ! i)) = connected_event jd (cs ! i)) \<and>
         subseq (tl (yielded (streams (interleave jd rs (startup cs)) ! i)))
                (sent_to (cs ! i) (accepted (interleave jd rs (startup cs))))"
proof -
  let ?x = "interleave jd rs (startup cs)"
  have cl: "map stream_client (streams ?x) = cs"
    by (simp add: interleave_clients) (simp add: startup_def new_stream_def comp_def)
  then have len: "length (streams ?x) = length cs" by (metis length_map)
  from cl i len have c: "stream_client (streams ?x ! i) = cs ! i" by (metis nth_map)
  from interleave_ok[of jd "startup cs" rs] startup_ok obtain G where ok: "server_ok jd ?x G"
    by blast
  then have acc: "accepted ?x = map (\<lambda>t. (fst t, snd (snd t))) G"
    and "stream_ok jd (the_broker ?x) G (streams ?x ! i)"
    unfolding server_ok_def using i len by simp_all
  then obtain k where hdc: "yielded (streams ?x ! i) = [] \<or>
        hd (yielded (streams ?x ! i)) = connected_event jd (cs ! i)"
    and sub: "subseq (tl (yielded (streams ?x ! i))) (for_client (cs ! i) (take k G))"
    unfolding stream_ok_def c by blast
  have "prefix (for_client (cs ! i) (take k G)) (for_client (cs ! i) G)"
    by (metis append_take_drop_id for_client_append prefixI)
  then have "subseq (for_client (cs ! i) (take k G)) (for_client (cs ! i) G)"
    by (rule prefix_imp_subseq)
  with sub have "subseq (tl (yielded (streams ?x ! i))) (for_client (cs ! i) G)"
    by (rule subseq_order.trans)
  with c hdc show ?thesis by (simp add: acc sent_to_log)
qed

text \<open>One stream alone.\<close>

lemma serve_in_order:
  assumes io: "in_order jd c x" and r: "r \<noteq> Cancel 0"
  shows "in_order jd c (serve jd r x)"
proof -
  from io obtain st where st: "streams x = [st]" "stream_client st = c"
    and ph: "client_connections (the_broker x) = [] \<and> accepted x = [] \<and>
           (stream_gen st = Created \<and> yielded st = [] \<or>
            stream_gen st = AtConnected \<and> yielded st = [connected_event jd c]) \<or>
         (\<exists>q pending.
            client_connections (the_broker x) = [(c, q)] \<and>
            queue_items (the_broker x) q = map Some pending \<and>
            yielded st \<noteq> [] \<and>
            sent_to c (accepted x) = tl (yielded st) @ pending \<and>
            (stream_gen st = AtEvent \<or> stream_gen st = Awaiting q))"
    unfolding in_order_def by blast
  from ph show ?thesis
  proof
    assume p: "client_connections (the_broker x) = [] \<and> accepted x = [] \<and>
           (stream_gen st = Created \<and> yielded st = [] \<or>
            stream_gen st = AtConnected \<and> yielded st = [connected_event jd c])"
    show ?thesis
    proof (cases r)
      case (Send target data obj)
      with p have "serve jd r x = x" by (simp add: send_to_client_def)
      with io show ?thesis by simp
    next
      case (Next i)
      show ?thesis
      proof (cases i)
        case 0
        from p have "stream_gen st = Created \<and> yielded st = [] \<or>
            stream_gen st = AtConnected \<and> yielded st = [connected_event jd c]" by blast
        then show ?thesis
        proof
          assume "stream_gen st = Created \<and> yielded st = []"
          with Next 0 st p show ?thesis
            by (simp add: in_order_def)
        next
          assume "stream_gen st = AtConnected \<and> yielded st = [connected_event jd c]"
          with Next 0 st p show ?thesis
            by (simp add: in_order_def loop_turn_def register_def await_get_def sent_to_def)
        qed
      next
        case (Suc j)
        with Next st have "serve jd r x = x" by simp
        with io show ?thesis by simp
      qed
    next
      case (Cancel i)
      with r st have "serve jd r x = x" by (cases i) simp_all
      with io show ?thesis by simp
    qed
  next
    assume "\<exists>q pending.
            client_connections (the_broker x) = [(c, q)] \<and>
            queue_items (the_broker x) q = map Some pending \<and>
            yielded st \<noteq> [] \<and>
            sent_to c (accepted x) = tl (yielded st) @ pending \<and>
            (stream_gen st = AtEvent \<or> stream_gen st = Awaiting q)"
    then obtain q pend where cc: "client_connections (the_broker x) = [(c, q)]"
      and items: "queue_items (the_broker x) q = map Some pend"
      and ne: "yielded st \<noteq> []"
      and acc: "sent_to c (accepted x) = tl (yielded st) @ pend"
      and g: "stream_gen st = AtEvent \<or> stream_gen st = Awaiting q"
      by blast
    show ?thesis
    proof (cases r)
      case (Send target data obj)
      show ?thesis
      proof (cases "target = c")
        case True
        with Send st cc items ne acc g show ?thesis
          by (auto simp: in_order_def send_to_client_def queue_put_def sent_to_def
                intro!: exI[of _ "pend @ [make_event jd obj data]"])
      next
        case False
        with Send cc have "serve jd r x = x" by (simp add: send_to_client_def)
        with io show ?thesis by simp
      qed
    next
      case (Next i)
      show ?thesis
      proof (cases i)
        case 0
        show ?thesis
        proof (cases pend)
          case Nil
          with Next 0 st cc items ne acc g show ?thesis
            by (auto simp: in_order_def loop_turn_def await_get_def)
        next
          case (Cons e rest)
          with Next 0 st cc items ne acc g show ?thesis
            by (auto simp: in_order_def loop_turn_def await_get_def intro!: exI[of _ rest])
        qed
      next
        case (Suc j)
        with Next st have "serve jd r x = x" by simp
        with io show ?thesis by simp
      qed
    next
      case (Cancel i)
      with r st have "serve jd r x = x" by (cases i) simp_all
      with io show ?thesis by simp
    qed
  qed
qed

lemma interleave_in_order:
  "in_order jd c x \<Longrightarrow> Cancel 0 \<notin> set rs \<Longrightarrow> in_order jd c (interleave jd rs x)"
proof (induction rs arbitrary: x)
  case Nil
  then show ?case by simp
next
  case (Cons r rs)
  from Cons.prems have "r \<noteq> Cancel 0" "Cancel 0 \<notin> set rs" by auto
  with Cons.IH[OF serve_in_order[OF Cons.prems(1)]] show ?case by simp
qed

lemma drain:
  assumes "streams x = [st]" "stream_client st = c"
    and "client_connections (the_broker x) = [(c, q)]"
    and "queue_items (the_broker x) q = map Some pend"
    and "stream_gen st = AtEvent \<or> stream_gen st = Awaiting q"
  shows "yielded (streams (interleave jd (replicate (length pend) (Next 0)) x) ! 0)
           = yielded st @ pend \<and>
         accepted (interleave jd (replicate (length pend) (Next 0)) x) = accepted x"
  using assms
proof (induction pend arbitrary: x st)
  case Nil
  then show ?case by simp
next
  case (Cons e rest)
  let ?x = "serve jd (Next 0) x" and ?st = "st\<lparr>stream_gen := AtEvent, yielded := yielded st @ [e]\<rparr>"
  from Cons.prems have
    "streams ?x = [?st]" "stream_client ?st = c"
    "client_connections (the_broker ?x) = [(c, q)]"
    "queue_items (the_broker ?x) q = map Some rest"
    "stream_gen ?st = AtEvent \<or> stream_gen ?st = Awaiting q" "accepted ?x = accepted x"
    by (auto simp: loop_turn_def await_get_def)
  with Cons.IH[of ?x ?st] show ?case by simp
qed

lemma startup_in_order: "in_order jd c (startup [c])"
  by (simp add: in_order_def startup_def new_stream_def no_clients_def)

lemma alone_complete:
  assumes nc: "Cancel 0 \<notin> set rs"
  shows "prefix (tl (yielded (streams (interleave jd rs (startup [c])) ! 0)))
           (sent_to c (accepted (interleave jd rs (startup [c])))) \<and>
         tl (yielded (streams (interleave jd
               (replicate (length (sent_to c (accepted (interleave jd rs (startup [c])))) -
                           length (tl (yielded (streams (interleave jd rs (startup [c])) ! 0))))
                  (Next 0))
               (interleave jd rs (startup [c]))) ! 0))
           = sent_to c (accepted (interleave jd rs (startup [c]))) \<and>
         accepted (interleave jd
               (replicate (length (sent_to c (accepted (interleave jd rs (startup [c])))) -
                           length (tl (yielded (streams (interleave jd rs (startup [c])) ! 0))))
                  (Next 0))
               (interleave jd rs (startup [c])))
           = accepted (interleave jd rs (startup [c]))"
proof -
  let ?x = "interleave jd rs (startup [c])"
  have io: "in_order jd c ?x" by (rule interleave_in_order[OF startup_in_order nc])
  then obtain st where st: "streams ?x = [st]" "stream_client st = c"
    and ph: "client_connections (the_broker ?x) = [] \<and> accepted ?x = [] \<and>
           (stream_gen st = Created \<and> yielded st = [] \<or>
            stream_gen st = AtConnected \<and> yielded st = [connected_event jd c]) \<or>
         (\<exists>q pending.
            client_connections (the_broker ?x) = [(c, q)] \<and>
            queue_items (the_broker ?x) q = map Some pending \<and>
            yielded st \<noteq> [] \<and>
            sent_to c (accepted ?x) = tl (yielded st) @ pending \<and>
            (stream_gen st = AtEvent \<or> stream_gen st = Awaiting q))"
    unfolding in_order_def by blast
  from ph show ?thesis
  proof
    assume "client_connections (the_broker ?x) = [] \<and> accepted ?x = [] \<and>
           (stream_gen st = Created \<and> yielded st = [] \<or>
            stream_gen st = AtConnected \<and> yielded st = [connected_event jd c])"
    then have "accepted ?x = []" "tl (yielded st) = []" by auto
    with st show ?thesis by (simp add: sent_to_def)
  next
    assume "\<exists>q pending.
            client_connections (the_broker ?x) = [(c, q)] \<and>
            queue_items (the_broker ?x) q = map Some pending \<and>
            yielded st \<noteq> [] \<and>
            sent_to c (accepted ?x) = tl (yielded st) @ pending \<and>
            (stream_gen st = AtEvent \<or> stream_gen st = Awaiting q)"
    then obtain q pend where cc: "client_connections (the_broker ?x) = [(c, q)]"
      and items: "queue_items (the_broker ?x) q = map Some pend"
      and ne: "yielded st \<noteq> []"
      and acc: "sent_to c (accepted ?x) = tl (yielded st) @ pend"
      and g: "stream_gen st = AtEvent \<or> stream_gen st = Awaiting q"
      by blast
    have len: "length (sent_to c (accepted ?x)) - length (tl (yielded (streams ?x ! 0))) = length pend"
      using acc st by simp
    from drain[OF st cc items g, of jd] ne acc st show ?thesis
      unfolding len by simp
  qed
qed

lemma registry_injective:
  assumes "map_of (client_connections (the_broker (interleave jd rs (startup cs)))) c1 = Some q"
    and "map_of (client_connections (the_broker (interleave jd rs (startup cs)))) c2 = Some q"
  shows "c1 = c2"
proof -
  from interleave_ok[of jd "startup cs" rs] startup_ok obtain G
    where "server_ok jd (interleave jd rs (startup cs)) G" by blast
  then have "broker_ok (the_broker (interleave jd rs (startup cs))) G"
    unfolding server_ok_def by blast
  with assms show ?thesis unfolding broker_ok_def by blast
qed

lemma sentinel_closes:
  assumes "queue_items s q = None # rest"
    and "g = AtEvent \<and> map_of (client_connections s) c = Some q \<or> g = Awaiting q"
  shows "\<exists>s'. gen_next jd c (s, g) = (StopAsyncIteration, s', Finished) \<and>
              map_of (client_connections s') c = None"
  using assms
  by (auto simp: loop_turn_def await_get_def map_of_cleanup)

lemma cancel_unregisters:
  assumes "g \<noteq> Created" "g \<noteq> Finished"
  shows "\<exists>s'. gen_cancel c (s, g) = (s', Finished) \<and> map_of (client_connections s') c = None"
  using assms by (cases g) (simp_all add: map_of_cleanup)

text \<open>
  Claim C4. Sending to a client id without a registered queue fails with the HTTP 404
  error and returns the broker as it was; this is the case after the close sentinel
  ended the stream, after the reader was cancelled, and for an id that never
  subscribed. Sending to a registered id succeeds, appends exactly the new event to
  the queue registered for that client, and leaves the registrations and the items of
  every other queue as they were; and in every state the server can reach, two
  different clients never have the same queue.
\<close>

theorem send_needs_registered_queue:
  "(map_of (client_connections s) c = None \<longrightarrow>
      send_to_client jd obj c data s =
        (Inl (HTTPException 404 (''Client '' @ c @ '' not connected'')), s)) \<and>
   (\<forall>q. map_of (client_connections s) c = Some q \<longrightarrow>
      fst (send_to_client jd obj c data s) = Inr ''sent'' \<and>
      queue_items (snd (send_to_client jd obj c data s)) q
        = queue_items s q @ [Some (make_event jd obj data)] \<and>
      (\<forall>q'. q' \<noteq> q \<longrightarrow>
         queue_items (snd (send_to_client jd obj c data s)) q' = queue_items s q') \<and>
      client_connections (snd (send_to_client jd obj c data s)) = client_connections s \<and>
      next_queue (snd (send_to_client jd obj c data s)) = next_queue s) \<and>
   (\<forall>q rest g. queue_items s q = None # rest \<and>
        (g = AtEvent \<and> map_of (client_connections s) c = Some q \<or> g = Awaiting q) \<longrightarrow>
      (\<exists>s'. gen_next jd c (s, g) = (StopAsyncIteration, s', Finished) \<and>
            send_to_client jd obj c data s' =
              (Inl (HTTPException 404 (''Client '' @ c @ '' not connected'')), s'))) \<and>
   (\<forall>g. g \<noteq> Created \<and> g \<noteq> Finished \<longrightarrow>
      (\<exists>s'. gen_cancel c (s, g) = (s', Finished) \<and>
            send_to_client jd obj c data s' =
              (Inl (HTTPException 404 (''Client '' @ c @ '' not connected'')), s'))) \<and>
   send_to_client jd obj c data \<lparr>client_connections = [], queue_items = items, next_queue = n\<rparr> =
     (Inl (HTTPException 404 (''Client '' @ c @ '' not connected'')),
      \<lparr>client_connections = [], queue_items = items, next_queue = n\<rparr>) \<and>
   (\<forall>cs rs c1 c2 q.
      map_of (client_connections (the_broker (interleave jd rs (startup cs)))) c1 = Some q \<and>
      map_of (client_connections (the_broker (interleave jd rs (startup cs)))) c2 = Some q \<longrightarrow>
      c1 = c2)"
proof -
  have absent: "send_to_client jd obj c data s' =
      (Inl (HTTPException 404 (''Client '' @ c @ '' not connected'')), s')"
    if "map_of (client_connections s') c = None" for s'
    using that by (simp add: send_to_client_def)
  have present: "fst (send_to_client jd obj c data s) = Inr ''sent'' \<and>
      queue_items (snd (send_to_client jd obj c data s)) q
        = queue_items s q @ [Some (make_event jd obj data)] \<and>
      (\<forall>q'. q' \<noteq> q \<longrightarrow>
         queue_items (snd (send_to_client jd obj c data s)) q' = queue_items s q') \<and>
      client_connections (snd (send_to_client jd obj c data s)) = client_connections s \<and>
      next_queue (snd (send_to_client jd obj c data s)) = next_queue s"
    if "map_of (client_connections s) c = Some q" for q
    using that by (simp add: send_to_client_def queue_put_def)
  have closed: "\<exists>s'. gen_next jd c (s, g) = (StopAsyncIteration, s', Finished) \<and>
      send_to_client jd obj c data s' =
        (Inl (HTTPException 404 (''Client '' @ c @ '' not connected'')), s')"
    if "queue_items s q = None # rest"
      "g = AtEvent \<and> map_of (client_connections s) c = Some q \<or> g = Awaiting q"
    for q rest g
    using sentinel_closes[OF that, of jd] absent by blast
  have cancelled: "\<exists>s'. gen_cancel c (s, g) = (s', Finished) \<and>
      send_to_client jd obj c data s' =
        (Inl (HTTPException 404 (''Client '' @ c @ '' not connected'')), s')"
    if "g \<noteq> Created" "g \<noteq> Finished" for g
    using cancel_unregisters[OF that, of c s] absent by blast
  have never: "send_to_client jd obj c data
       \<lparr>client_connections = [], queue_items = items, next_queue = n\<rparr> =
     (Inl (HTTPException 404 (''Client '' @ c @ '' not connected'')),
      \<lparr>client_connections = [], queue_items = items, next_queue = n\<rparr>)"
    by (rule absent) simp
  have inj: "c1 = c2"
    if "map_of (client_connections (the_broker (interleave jd rs (startup cs)))) c1 = Some q \<and>
        map_of (client_connections (the_broker (interleave jd rs (startup cs)))) c2 = Some q"
    for cs rs c1 c2 q
    using that registry_injective by blast
  from absent[of s] present closed cancelled never inj show ?thesis
    by blast
qed

theorem send_needs_registered_queue_witness:
  "send_to_client (\<lambda>v. []) ''7'' ''b'' body1 one_client =
     (Inl (HTTPException 404 ''Client b not connected''), one_client) \<and>
   fst (send_to_client (\<lambda>v. []) ''7'' ''a'' body1 one_client) = Inr ''sent'' \<and>
   queue_items (snd (send_to_client (\<lambda>v. []) ''7'' ''a'' body1 one_client)) 0
     = [Some (make_event (\<lambda>v. []) ''7'' body1)] \<and>
   queue_items (snd (send_to_client (\<lambda>v. []) ''7'' ''a'' body1 one_client)) 1 = [] \<and>
   client_connections (snd (send_to_client (\<lambda>v. []) ''7'' ''a'' body1 one_client)) = [(''a'', 0)] \<and>
   (\<exists>s'. gen_next (\<lambda>v. []) ''a'' (closing_client, AtEvent) = (StopAsyncIteration, s', Finished) \<and>
         send_to_client (\<lambda>v. []) ''7'' ''a'' body1 s' =
           (Inl (HTTPException 404 ''Client a not connected''), s')) \<and>
   (\<exists>s'. gen_cancel ''a'' (one_client, AtEvent) = (s', Finished) \<and>
         send_to_client (\<lambda>v. []) ''7'' ''a'' body1 s' =
           (Inl (HTTPException 404 ''Client a not connected''), s'))"
proof -
  have b: "map_of (client_connections one_client) ''b'' = None"
    and a: "map_of (client_connections one_client) ''a'' = Some 0"
    and i: "queue_items one_client 0 = []" "queue_items one_client 1 = []"
    and r: "client_connections one_client = [(''a'', 0)]"
    by (simp_all add: one_client_def)
  have c: "map_of (client_connections closing_client) ''a'' = Some 0"
    "queue_items closing_client 0 = None # []"
    by (simp_all add: closing_client_def)
  have g: "AtEvent \<noteq> Created \<and> AtEvent \<noteq> Finished" by simp
  note t1 = send_needs_registered_queue[of one_client "''b''" "\<lambda>v. []" "''7''" body1]
  note t2 = send_needs_registered_queue[of one_client "''a''" "\<lambda>v. []" "''7''" body1]
  note t3 = send_needs_registered_queue[of closing_client "''a''" "\<lambda>v. []" "''7''" body1]
  from t1 b have 1: "send_to_client (\<lambda>v. []) ''7'' ''b'' body1 one_client =
     (Inl (HTTPException 404 ''Client b not connected''), one_client)" by simp
  from t2 a have "fst (send_to_client (\<lambda>v. []) ''7'' ''a'' body1 one_client) = Inr ''sent'' \<and>
      queue_items (snd (send_to_client (\<lambda>v. []) ''7'' ''a'' body1 one_client)) 0
        = queue_items one_client 0 @ [Some (make_event (\<lambda>v. []) ''7'' body1)] \<and>
      (\<forall>q'. q' \<noteq> 0 \<longrightarrow>
         queue_items (snd (send_to_client (\<lambda>v. []) ''7'' ''a'' body1 one_client)) q'
           = queue_items one_client q') \<and>
      client_connections (snd (send_to_client (\<lambda>v. []) ''7'' ''a'' body1 one_client))
        = client_connections one_client" by blast
  with i r have 2: "fst (send_to_client (\<lambda>v. []) ''7'' ''a'' body1 one_client) = Inr ''sent'' \<and>
      queue_items (snd (send_to_client (\<lambda>v. []) ''7'' ''a'' body1 one_client)) 0
        = [Some (make_event (\<lambda>v. []) ''7'' body1)] \<and>
      queue_items (snd (send_to_client (\<lambda>v. []) ''7'' ''a'' body1 one_client)) 1 = [] \<and>
      client_connections (snd (send_to_client (\<lambda>v. []) ''7'' ''a'' body1 one_client)) = [(''a'', 0)]"
    by simp
  from t3 c have 3: "\<exists>s'. gen_next (\<lambda>v. []) ''a'' (closing_client, AtEvent)
        = (StopAsyncIteration, s', Finished) \<and>
      send_to_client (\<lambda>v. []) ''7'' ''a'' body1 s' =
        (Inl (HTTPException 404 (''Client '' @ ''a'' @ '' not connected'')), s')"
    by blast
  from t2 g have 4: "\<exists>s'. gen_cancel ''a'' (one_client, AtEvent) = (s', Finished) \<and>
      send_to_client (\<lambda>v. []) ''7'' ''a'' body1 s' =
        (Inl (HTTPException 404 (''Client '' @ ''a'' @ '' not connected'')), s')"
    by blast
  from 1 2 3 4 show ?thesis by simp
qed

text \<open>
  Claim C5. The first item of a client's stream is the \<open>connected\<close> event carrying the
  client id, yielded before any queue exists; the next resumption registers an empty
  queue and waits. From then on, in every state of the broker, two events sent to the
  client are yielded in the order they were sent. However many streams the server has
  handed out, also several for one client id, and however sends, reads and
  cancellations interleave, every stream yields first the \<open>connected\<close> event and then
  events accepted for its client id in the order they were accepted, none twice. A
  stream that is alone and not cancelled has at every moment yielded an initial segment
  of the accepted events, and further reads yield the remaining ones in the same order.
\<close>

theorem stream_is_fifo:
  "gen_next jd c (s, Created) = (Yielded (connected_event jd c), s, AtConnected) \<and>
   ev_event (connected_event jd c) = JAtom (PStr ''connected'') \<and>
   ev_id (connected_event jd c) = JAtom (PStr c) \<and>
   gen_next jd c (s, AtConnected) = (Pending, register c s, Awaiting (next_queue s)) \<and>
   yielded (streams (interleave jd [Send c d1 o1, Send c d2 o2, Next 0, Next 0]
       \<lparr>the_broker = register c s,
        streams = [\<lparr>stream_client = c, stream_gen = Awaiting (next_queue s),
                    yielded = [connected_event jd c]\<rparr>],
        accepted = []\<rparr>) ! 0)
     = [connected_event jd c, make_event jd o1 d1, make_event jd o2 d2] \<and>
   (\<forall>cs rs i. i < length cs \<longrightarrow>
      (let r = streams (interleave jd rs (startup cs)) ! i
       in stream_client r = cs ! i \<and>
          (yielded r = [] \<or> hd (yielded r) = connected_event jd (cs ! i)) \<and>
          subseq (tl (yielded r)) (sent_to (cs ! i) (accepted (interleave jd rs (startup cs)))))) \<and>
   (\<forall>rs. Cancel 0 \<notin> set rs \<longrightarrow>
      (let x = interleave jd rs (startup [c]);
           rest = replicate (length (sent_to c (accepted x)) - length (tl (yielded (streams x ! 0))))
                    (Next 0)
       in prefix (tl (yielded (streams x ! 0))) (sent_to c (accepted x)) \<and>
          tl (yielded (streams (interleave jd rest x) ! 0)) = sent_to c (accepted x) \<and>
          accepted (interleave jd rest x) = accepted x))"
proof -
  have start: "gen_next jd c (s, Created) = (Yielded (connected_event jd c), s, AtConnected)"
    by simp
  have ev: "ev_event (connected_event jd c) = JAtom (PStr ''connected'')"
    and evid: "ev_id (connected_event jd c) = JAtom (PStr c)"
    by (simp_all add: connected_event_def)
  have reg: "map_of (client_connections (register c s)) c = Some (next_queue s)"
    "queue_items (register c s) (next_queue s) = []"
    by (simp_all add: register_def AList.update_conv')
  have first: "gen_next jd c (s, AtConnected) = (Pending, register c s, Awaiting (next_queue s))"
    using reg by (simp add: loop_turn_def await_get_def)
  have two: "yielded (streams (interleave jd [Send c d1 o1, Send c d2 o2, Next 0, Next 0]
       \<lparr>the_broker = register c s,
        streams = [\<lparr>stream_client = c, stream_gen = Awaiting (next_queue s),
                    yielded = [connected_event jd c]\<rparr>],
        accepted = []\<rparr>) ! 0)
     = [connected_event jd c, make_event jd o1 d1, make_event jd o2 d2]"
    using reg by (simp add: send_to_client_def queue_put_def loop_turn_def await_get_def)
  have many: "i < length cs \<longrightarrow>
      (let r = streams (interleave jd rs (startup cs)) ! i
       in stream_client r = cs ! i \<and>
          (yielded r = [] \<or> hd (yielded r) = connected_event jd (cs ! i)) \<and>
          subseq (tl (yielded r)) (sent_to (cs ! i) (accepted (interleave jd rs (startup cs)))))"
    for cs rs i
    unfolding Let_def using streams_in_order[of i cs jd rs] by blast
  have alone: "Cancel 0 \<notin> set rs \<longrightarrow>
      (let x = interleave jd rs (startup [c]);
           rest = replicate (length (sent_to c (accepted x)) - length (tl (yielded (streams x ! 0))))
                    (Next 0)
       in prefix (tl (yielded (streams x ! 0))) (sent_to c (accepted x)) \<and>
          tl (yielded (streams (interleave jd rest x) ! 0)) = sent_to c (accepted x) \<and>
          accepted (interleave jd rest x) = accepted x)" for rs
    unfolding Let_def using alone_complete[of rs jd c] by blast
  from start ev evid first two many alone show ?thesis
    by blast
qed

theorem stream_is_fifo_witness:
  "subseq (tl (yielded (streams (interleave (\<lambda>v. []) resubscribe (startup [''a'', ''a''])) ! 0)))
     (sent_to ''a'' (accepted (interleave (\<lambda>v. []) resubscribe (startup [''a'', ''a''])))) \<and>
   yielded (streams (interleave (\<lambda>v. []) resubscribe (startup [''a'', ''a''])) ! 0)
     = [connected_event (\<lambda>v. []) ''a'', make_event (\<lambda>v. []) ''7'' body1,
        make_event (\<lambda>v. []) ''8'' body2] \<and>
   yielded (streams (interleave (\<lambda>v. []) resubscribe (startup [''a'', ''a''])) ! 1)
     = [connected_event (\<lambda>v. []) ''a''] \<and>
   accepted (interleave (\<lambda>v. []) resubscribe (startup [''a'', ''a'']))
     = [(''a'', make_event (\<lambda>v. []) ''7'' body1), (''a'', make_event (\<lambda>v. []) ''8'' body2)] \<and>
   prefix (tl (yielded (streams (interleave (\<lambda>v. []) [Next 0, Next 0, Send ''a'' body1 ''7'']
                                  (startup [''a''])) ! 0)))
     (sent_to ''a'' (accepted (interleave (\<lambda>v. []) [Next 0, Next 0, Send ''a'' body1 ''7'']
                                  (startup [''a''])))) \<and>
   make_event (\<lambda>v. []) ''7'' body1 \<noteq> make_event (\<lambda>v. []) ''8'' body2"
proof -
  note t = stream_is_fifo[of "\<lambda>v. []" "''a''" no_clients body1 "''7''" body2 "''8''"]
  have i: "(0::nat) < length [''a'', ''a'']" by simp
  have nc: "Cancel 0 \<notin> set [Next 0, Next 0, Send ''a'' body1 ''7'']" by simp
  from t i have 1: "subseq
      (tl (yielded (streams (interleave (\<lambda>v. []) resubscribe (startup [''a'', ''a''])) ! 0)))
      (sent_to ([''a'', ''a''] ! 0)
         (accepted (interleave (\<lambda>v. []) resubscribe (startup [''a'', ''a'']))))"
    unfolding Let_def by blast
  from t nc have 2: "prefix
      (tl (yielded (streams (interleave (\<lambda>v. []) [Next 0, Next 0, Send ''a'' body1 ''7'']
                              (startup [''a''])) ! 0)))
      (sent_to ''a'' (accepted (interleave (\<lambda>v. []) [Next 0, Next 0, Send ''a'' body1 ''7'']
                              (startup [''a'']))))"
    unfolding Let_def by blast
  have run: "interleave (\<lambda>v. []) resubscribe (startup [''a'', ''a'']) =
      \<lparr>the_broker = \<lparr>client_connections = [(''a'', 1)], queue_items = (\<lambda>q. []), next_queue = 2\<rparr>,
       streams = [\<lparr>stream_client = ''a'', stream_gen = AtEvent,
                   yielded = [connected_event (\<lambda>v. []) ''a'', make_event (\<lambda>v. []) ''7'' body1,
                              make_event (\<lambda>v. []) ''8'' body2]\<rparr>,
                  \<lparr>stream_client = ''a'', stream_gen = Awaiting 1,
                   yielded = [connected_event (\<lambda>v. []) ''a'']\<rparr>],
       accepted = [(''a'', make_event (\<lambda>v. []) ''7'' body1),
                   (''a'', make_event (\<lambda>v. []) ''8'' body2)]\<rparr>"
    by (simp add: resubscribe_def startup_def new_stream_def no_clients_def Let_def
          send_to_client_def queue_put_def loop_turn_def await_get_def register_def fun_eq_iff)
  have ne: "make_event (\<lambda>v. []) ''7'' body1 \<noteq> make_event (\<lambda>v. []) ''8'' body2"
    by (simp add: make_event_def body1_def body2_def jget_default_def)
  from 1 2 ne show ?thesis by (simp add: run)
qed

section \<open>The dispatcher\<close>

text \<open>
  The handler of \<open>call_tool\<close> takes every exception of its \<open>try\<close> block, the 404 it
  raised itself included, so \<open>call_tool\<close> never lets a 404 out.
\<close>

lemma call_tool_raises_500:
  "call_tool estr vstr ts tool_name arguments = Inl e \<Longrightarrow> \<exists>detail. e = HTTPException 500 detail"
  by (auto simp: call_tool_def split: sum.splits)

lemma jsonrpc_missing_name:
  assumes "rpc_method request = ''tools/call'' \<or> rpc_method request = ''tool/call''"
    and "rpc_params request = Some params"
    and "\<not> jtruthy (jget params ''name'')" "\<not> jtruthy (jget params ''tool'')"
  shows "resp_payload (jsonrpc_endpoint estr vstr ts request) =
           ErrorObject (- 32602) ''Invalid params: tool name is required''"
  using assms by (auto simp: jsonrpc_endpoint_def Let_def jor_def)

lemma jsonrpc_tool_call_error_code:
  assumes "rpc_method request = ''tools/call'' \<or> rpc_method request = ''tool/call''"
    and "resp_payload (jsonrpc_endpoint estr vstr ts request) = ErrorObject code message"
  shows "code = - 32602 \<or> code = - 32603"
proof -
  have "\<exists>detail. call_tool estr vstr ts n a = Inl (HTTPException 500 detail)"
    if "call_tool estr vstr ts n a = Inl e" for n a e
    using call_tool_raises_500[OF that] that by auto
  then show ?thesis
    using assms
    by (fastforce simp: jsonrpc_endpoint_def Let_def split: if_splits sum.splits exn.splits)
qed

text \<open>
  Claim C8, at a request that names a tool that does not exist: the JSON-RPC answer
  carries the code -32603, and the direct path answers with status 500. The 404 that
  \<open>call_tool\<close> raises for the unknown name is inside the text of that error.
\<close>

theorem unknown_tool_is_internal_error:
  "resp_payload (jsonrpc_endpoint estr vstr ts
      \<lparr>rpc_id = Some ''1'', rpc_method = ''tools/call'',
       rpc_params = Some [(''name'', JAtom (PStr ''nope''))]\<rparr>)
     = ErrorObject (- 32603)
         (''Error executing tool: '' @
            estr (HTTPException 404 (''Tool not found: '' @ vstr (JAtom (PStr ''nope''))))) \<and>
   http_status (call_tool estr vstr ts (JAtom (PStr ''nope'')) (JDict [])) = 500"
  by (simp add: jsonrpc_endpoint_def call_tool_def call_tool_try_def is_name_def jor_def jget_def
        Let_def)

theorem unknown_tool_is_internal_error_witness:
  "resp_payload (jsonrpc_endpoint (\<lambda>e. ''404'') (\<lambda>v. ''nope'') echo_tools
      \<lparr>rpc_id = Some ''1'', rpc_method = ''tools/call'',
       rpc_params = Some [(''name'', JAtom (PStr ''nope''))]\<rparr>)
     = ErrorObject (- 32603) ''Error executing tool: 404'' \<and>
   http_status (call_tool (\<lambda>e. ''404'') (\<lambda>v. ''nope'') echo_tools (JAtom (PStr ''nope'')) (JDict []))
     = 500"
  using unknown_tool_is_internal_error[of "\<lambda>e. ''404''" "\<lambda>v. ''nope''" echo_tools]
  by simp

section \<open>Tools without a client\<close>

text \<open>
  Claim C6, at the tools whose client is \<open>None\<close>: the arp tool and the dhcp tool return
  their dummy data; the system tool returns the error payload of its exception handler,
  not a fixture.
\<close>

theorem tools_without_client:
  "ARPTool_execute oui lx None params = ARPTool_get_dummy_data \<and>
   DHCPTool_execute estr lx None params = DHCPTool_get_dummy_data \<and>
   SystemTool_execute estr None params =
     [(''error'', JAtom (PStr (''Failed to get system status: '' @
                                estr (AttributeError ''get_system_status'')))),
      (''status'', JAtom (PStr ''error''))]"
  by (simp add: ARPTool_execute_def DHCPTool_execute_def SystemTool_execute_def system_error_def)


section \<open>The ARP tool: wildcard, search and filters\<close>

lemmas str_eval = py_lower_def lower_char_def char_of_def bit_Suc_0_iff py_strip_def is_space_def

lemma bindE_Inr: "bindE m f = Inr r \<longleftrightarrow> (\<exists>x. m = Inr x \<and> f x = Inr r)"
  by (cases m) simp_all

lemma py_contains_sublist: "py_contains q s \<longleftrightarrow> sublist q s"
  by (induction s) (auto simp: sublist_Cons_right)

lemma apply_filters_none:
  assumes "\<not> truthy (dget p ''mac'')" "\<not> truthy (dget p ''ip'')" "\<not> truthy (dget p ''ipv6'')"
  shows "apply_filters p t = Inr t"
  using assms by (simp add: apply_filters_def Let_def)

lemma lookup_tables_plain:
  assumes "\<not> truthy (dget p ''search'')"
    "\<not> truthy (dget p ''mac'')" "\<not> truthy (dget p ''ip'')" "\<not> truthy (dget p ''ipv6'')"
  shows "lookup_tables oui lx c p maps =
           bindE (full_tables oui lx c (fst maps) (snd maps)) (\<lambda>tables. Inr (success tables))"
  using assms by (simp add: lookup_tables_def Let_def apply_filters_none)

lemma lookup_tables_wildcard:
  assumes "dget p ''search'' = PStr q" "py_strip q = ''*'' \<or> py_strip q = []"
    "\<not> truthy (dget p ''mac'')" "\<not> truthy (dget p ''ip'')" "\<not> truthy (dget p ''ipv6'')"
  shows "lookup_tables oui lx c p maps =
           bindE (full_tables oui lx c (fst maps) (snd maps)) (\<lambda>tables. Inr (success tables))"
proof (cases "q = []")
  case True
  with assms show ?thesis by (intro lookup_tables_plain) simp_all
next
  case False
  with assms(1,2) show ?thesis
    by (simp add: lookup_tables_def Let_def)
qed

lemma lookup_tables_search_only:
  assumes "truthy (dget p1 ''search'')" "dget p1 ''search'' = dget p2 ''search''"
  shows "lookup_tables oui lx c p1 maps = lookup_tables oui lx c p2 maps"
  using assms by (simp add: lookup_tables_def Let_def)

lemma full_tables_Inr:
  "full_tables oui lx c ipm macm = Inr t \<longleftrightarrow>
     (\<exists>arp_data ndp_data. get_arp_table c = Inr arp_data \<and> get_ndp_table c = Inr ndp_data \<and>
        mapE (arp_entry oui lx ipm macm) arp_data = Inr (fst t) \<and>
        mapE (arp_entry oui lx ipm macm) ndp_data = Inr (snd t))"
  by (cases t) (auto simp: full_tables_def bindE_Inr)

lemma matching_tables_Inr:
  "matching_tables oui lx c ipm macm qs = Inr t \<longleftrightarrow>
     (\<exists>arp_data ndp_data. get_arp_table c = Inr arp_data \<and> get_ndp_table c = Inr ndp_data \<and>
        mapE (arp_entry oui lx ipm macm) (filter (match_any qs) arp_data) = Inr (fst t) \<and>
        mapE (arp_entry oui lx ipm macm) (filter (match_any qs) ndp_data) = Inr (snd t))"
  by (cases t) (auto simp: matching_tables_def bindE_Inr)

lemma mapE_length: "mapE f xs = Inr ys \<Longrightarrow> length ys = length xs"
  using mapE_Inr by blast

text \<open>
  Claim C3. A search argument that is the wildcard \<open>*\<close>, or is empty or only white
  space after stripping, with no other filter, gives exactly the result of a call with
  no search and no filter. When the lookup does not fall back to the dummy data, that
  result is the full tables: one enriched entry for every row of the ARP table and of
  the NDP table, in order. A table of the result is empty only when the collaborator's
  table is empty.
\<close>

theorem wildcard_search_is_no_search:
  assumes s1: "dget p1 ''search'' = PStr q" and w: "py_strip q = ''*'' \<or> py_strip q = []"
    and f1: "\<not> truthy (dget p1 ''mac'')" "\<not> truthy (dget p1 ''ip'')" "\<not> truthy (dget p1 ''ipv6'')"
    and s2: "\<not> truthy (dget p2 ''search'')"
    and f2: "\<not> truthy (dget p2 ''mac'')" "\<not> truthy (dget p2 ''ip'')" "\<not> truthy (dget p2 ''ipv6'')"
  shows "ARPTool_execute oui lx cl p1 = ARPTool_execute oui lx cl p2 \<and>
         (\<forall>c r. cl = Some c \<and> ARPTool_try oui lx c p1 = Inr r \<longrightarrow>
            ARPTool_execute oui lx cl p1 = r \<and>
            (\<exists>arp_data ndp_data dhcp_ip_map dhcp_mac_map.
               get_arp_table c = Inr arp_data \<and> get_ndp_table c = Inr ndp_data \<and>
               mapE (arp_entry oui lx dhcp_ip_map dhcp_mac_map) arp_data = Inr (arp r) \<and>
               mapE (arp_entry oui lx dhcp_ip_map dhcp_mac_map) ndp_data = Inr (ndp r) \<and>
               length (arp r) = length arp_data \<and> length (ndp r) = length ndp_data)) \<and>
         (arp (ARPTool_execute oui lx cl p1) = [] \<longrightarrow> (\<exists>c. cl = Some c \<and> get_arp_table c = Inr [])) \<and>
         (ndp (ARPTool_execute oui lx cl p1) = [] \<longrightarrow> (\<exists>c. cl = Some c \<and> get_ndp_table c = Inr []))"
proof -
  have t1: "ARPTool_try oui lx c p1 =
      bindE (dhcp_maps c) (\<lambda>maps.
        bindE (full_tables oui lx c (fst maps) (snd maps)) (\<lambda>tables. Inr (success tables)))" for c
    unfolding ARPTool_try_def
    by (rule arg_cong[where f="bindE (dhcp_maps c)"], rule ext)
       (rule lookup_tables_wildcard[OF s1 w f1])
  have t2: "ARPTool_try oui lx c p2 =
      bindE (dhcp_maps c) (\<lambda>maps.
        bindE (full_tables oui lx c (fst maps) (snd maps)) (\<lambda>tables. Inr (success tables)))" for c
    unfolding ARPTool_try_def
    by (rule arg_cong[where f="bindE (dhcp_maps c)"], rule ext)
       (rule lookup_tables_plain[OF s2 f2])
  have eq: "ARPTool_execute oui lx cl p1 = ARPTool_execute oui lx cl p2"
    by (cases cl) (simp_all add: ARPTool_execute_def t1 t2)
  have full: "ARPTool_execute oui lx cl p1 = r \<and>
      (\<exists>arp_data ndp_data dhcp_ip_map dhcp_mac_map.
         get_arp_table c = Inr arp_data \<and> get_ndp_table c = Inr ndp_data \<and>
         mapE (arp_entry oui lx dhcp_ip_map dhcp_mac_map) arp_data = Inr (arp r) \<and>
         mapE (arp_entry oui lx dhcp_ip_map dhcp_mac_map) ndp_data = Inr (ndp r) \<and>
         length (arp r) = length arp_data \<and> length (ndp r) = length ndp_data)"
    if c: "cl = Some c" and r: "ARPTool_try oui lx c p1 = Inr r" for c r
  proof -
    from r[unfolded t1] obtain maps t where
      "full_tables oui lx c (fst maps) (snd maps) = Inr t" "r = success t"
      by (auto simp: bindE_Inr)
    then obtain arp_data ndp_data where
      a: "get_arp_table c = Inr arp_data" "get_ndp_table c = Inr ndp_data"
      and m: "mapE (arp_entry oui lx (fst maps) (snd maps)) arp_data = Inr (arp r)"
        "mapE (arp_entry oui lx (fst maps) (snd maps)) ndp_data = Inr (ndp r)"
      by (auto simp: full_tables_Inr success_def)
    from m have "length (arp r) = length arp_data" "length (ndp r) = length ndp_data"
      by (simp_all add: mapE_length)
    with a m c r show ?thesis
      by (auto simp: ARPTool_execute_def)
  qed
  have dummy: "arp ARPTool_get_dummy_data \<noteq> []" "ndp ARPTool_get_dummy_data \<noteq> []"
    by (simp_all add: ARPTool_get_dummy_data_def)
  have ne_arp: "\<exists>c. cl = Some c \<and> get_arp_table c = Inr []"
    if e: "arp (ARPTool_execute oui lx cl p1) = []"
  proof (cases cl)
    case None
    with e dummy show ?thesis by (simp add: ARPTool_execute_def)
  next
    case (Some c)
    show ?thesis
    proof (cases "ARPTool_try oui lx c p1")
      case (Inl x)
      with e dummy Some show ?thesis by (simp add: ARPTool_execute_def)
    next
      case (Inr r)
      from full[OF Some Inr] e Some show ?thesis by auto
    qed
  qed
  have ne_ndp: "\<exists>c. cl = Some c \<and> get_ndp_table c = Inr []"
    if e: "ndp (ARPTool_execute oui lx cl p1) = []"
  proof (cases cl)
    case None
    with e dummy show ?thesis by (simp add: ARPTool_execute_def)
  next
    case (Some c)
    show ?thesis
    proof (cases "ARPTool_try oui lx c p1")
      case (Inl x)
      with e dummy Some show ?thesis by (simp add: ARPTool_execute_def)
    next
      case (Inr r)
      from full[OF Some Inr] e Some show ?thesis by auto
    qed
  qed
  from eq full ne_arp ne_ndp show ?thesis by blast
qed

text \<open>
  Claim C10. With a search argument that is neither empty nor the wildcard after
  stripping, the result is the same for any two argument dictionaries that carry that
  search, whatever \<open>mac\<close>, \<open>ip\<close> and \<open>ipv6\<close> they hold besides.
\<close>

theorem search_ignores_filters:
  assumes "dget p1 ''search'' = PStr q" "dget p2 ''search'' = PStr q"
    and "py_strip q \<noteq> ''*''" "py_strip q \<noteq> []"
  shows "ARPTool_execute oui lx cl p1 = ARPTool_execute oui lx cl p2"
proof -
  from assms(4) have "q \<noteq> []" by (auto simp: py_strip_def)
  with assms(1,2) have "lookup_tables oui lx c p1 maps = lookup_tables oui lx c p2 maps" for c maps
    by (intro lookup_tables_search_only) simp_all
  then have "lookup_tables oui lx c p1 = lookup_tables oui lx c p2" for c
    by (rule ext)
  then show ?thesis
    by (cases cl) (simp_all add: ARPTool_execute_def ARPTool_try_def)
qed


lemmas arp_eval = ARPTool_execute_def ARPTool_try_def dhcp_maps_def lookup_tables_def
  full_tables_def matching_tables_def success_def apply_filters_def arp_entry_def
  fill_manufacturer_and_dhcp_def model_dump_def ARPEntry_def all_queries_def match_any_def
  mac_equals_def ip_equals_def dget_def dget_default_def py_or_def Let_def

theorem wildcard_search_is_no_search_witness:
  "ARPTool_execute (\<lambda>m. PNone) lax_exact (Some two_hosts) [(''search'', PStr '' * '')] =
   ARPTool_execute (\<lambda>m. PNone) lax_exact (Some two_hosts) [] \<and>
   length (arp (ARPTool_execute (\<lambda>m. PNone) lax_exact (Some two_hosts)
                  [(''search'', PStr '' * '')])) = 2"
proof -
  let ?p = "[(''search'', PStr '' * '')]"
  have h: "dget ?p ''search'' = PStr '' * ''"
    "py_strip '' * '' = ''*'' \<or> py_strip '' * '' = []"
    "\<not> truthy (dget ?p ''mac'')" "\<not> truthy (dget ?p ''ip'')" "\<not> truthy (dget ?p ''ipv6'')"
    "\<not> truthy (dget [] ''search'')" "\<not> truthy (dget [] ''mac'')"
    "\<not> truthy (dget [] ''ip'')" "\<not> truthy (dget [] ''ipv6'')"
    by (simp_all add: dget_def str_eval)
  have ok: "\<exists>r. ARPTool_try (\<lambda>m. PNone) lax_exact two_hosts ?p = Inr r"
    by (simp add: arp_eval two_hosts_def str_eval)
  have table: "get_arp_table two_hosts =
      Inr [[(''ip'', PStr ''192.168.1.10''), (''mac'', PStr ''aa:bb:cc:dd:ee:ff''),
            (''intf'', PStr ''em0'')],
           [(''ip'', PStr ''192.168.1.11''), (''mac'', PStr ''aa:bb:00:11:22:33''),
            (''intf'', PStr ''em0'')]]"
    by (simp add: two_hosts_def)
  note t = wildcard_search_is_no_search[OF h, of "\<lambda>m. PNone" lax_exact "Some two_hosts"]
  from t have 1: "ARPTool_execute (\<lambda>m. PNone) lax_exact (Some two_hosts) ?p =
      ARPTool_execute (\<lambda>m. PNone) lax_exact (Some two_hosts) []" by blast
  from ok obtain r where r: "ARPTool_try (\<lambda>m. PNone) lax_exact two_hosts ?p = Inr r" ..
  with t obtain arp_data where "ARPTool_execute (\<lambda>m. PNone) lax_exact (Some two_hosts) ?p = r"
    "get_arp_table two_hosts = Inr arp_data" "length (arp r) = length arp_data"
    by blast
  with table have "length (arp (ARPTool_execute (\<lambda>m. PNone) lax_exact (Some two_hosts) ?p)) = 2"
    by simp
  with 1 show ?thesis by simp
qed

theorem search_ignores_filters_witness:
  "ARPTool_execute (\<lambda>m. PNone) lax_exact (Some two_hosts)
      [(''search'', PStr ''aa:bb''), (''mac'', PStr ''AA:BB:CC:DD:EE:FF'')] =
   ARPTool_execute (\<lambda>m. PNone) lax_exact (Some two_hosts) [(''search'', PStr ''aa:bb'')] \<and>
   length (arp (ARPTool_execute (\<lambda>m. PNone) lax_exact (Some two_hosts)
      [(''search'', PStr ''aa:bb'')])) = 2"
proof -
  have h: "dget [(''search'', PStr ''aa:bb''), (''mac'', PStr ''AA:BB:CC:DD:EE:FF'')] ''search''
             = PStr ''aa:bb''"
    "dget [(''search'', PStr ''aa:bb'')] ''search'' = PStr ''aa:bb''"
    "py_strip ''aa:bb'' \<noteq> ''*''" "py_strip ''aa:bb'' \<noteq> []"
    by (simp_all add: dget_def str_eval)
  have len: "length (arp (ARPTool_execute (\<lambda>m. PNone) lax_exact (Some two_hosts)
      [(''search'', PStr ''aa:bb'')])) = 2"
    by (simp add: arp_eval two_hosts_def str_eval)
  from search_ignores_filters[OF h, of "\<lambda>m. PNone" lax_exact "Some two_hosts"] len
  show ?thesis by simp
qed


section \<open>The ARP tool: what a filter and a search keep\<close>

lemma validate_required_str:
  "validate_field lx TStr True x = Some v \<Longrightarrow> \<exists>s. x = Some (PStr s) \<and> v = PStr s"
  by (cases "(lx, TStr, True, x)" rule: validate_field.cases) auto

lemma model_dump_required_str:
  assumes "model_dump lx name sch d = Inr r" "map_of sch k = Some (TStr, True)"
  shows "\<exists>s. map_of d k = Some (PStr s) \<and> map_of r k = Some (PStr s)"
proof -
  from assms(2) have "(k, TStr, True) \<in> set sch" by (rule map_of_SomeD)
  moreover from assms(1) have "\<not> isl (model_dump lx name sch d)" by simp
  ultimately have "validate_field lx TStr True (map_of d k) \<noteq> None"
    unfolding isl_model_dump by blast
  then obtain v where v: "validate_field lx TStr True (map_of d k) = Some v" by blast
  from validate_required_str[OF v] model_dump_field[OF assms] v show ?thesis by auto
qed

lemma fill_keeps:
  assumes "fill_manufacturer_and_dhcp oui d ipm macm = Inr e'"
    and "k \<noteq> ''manufacturer''" "k \<noteq> ''hostname''" "k \<noteq> ''dhcp_status''"
  shows "map_of e' k = map_of d k"
  using assms
  by (auto simp: fill_manufacturer_and_dhcp_def Let_def bindE_Inr AList.update_conv'
        split: if_splits option.splits)

lemma arp_entry_keeps:
  assumes "arp_entry oui lx ipm macm e = Inr e'" "k = ''mac'' \<or> k = ''ip'' \<or> k = ''intf''"
  shows "\<exists>s. map_of e k = Some (PStr s) \<and> map_of e' k = Some (PStr s)"
proof -
  from assms(1) obtain d where d: "model_dump lx ''ARPEntry'' ARPEntry e = Inr d"
    and f: "fill_manufacturer_and_dhcp oui d ipm macm = Inr e'"
    by (auto simp: arp_entry_def bindE_Inr)
  from assms(2) have "map_of ARPEntry k = Some (TStr, True)"
    by (auto simp: ARPEntry_def)
  from model_dump_required_str[OF d this] obtain s where
    "map_of e k = Some (PStr s)" "map_of d k = Some (PStr s)" by blast
  moreover from assms(2) have "map_of e' k = map_of d k"
    by (intro fill_keeps[OF f]) auto
  ultimately show ?thesis by simp
qed


lemma mapE_set:
  "mapE f xs = Inr ys \<Longrightarrow>
     (\<forall>x\<in>set xs. \<exists>y\<in>set ys. f x = Inr y) \<and> (\<forall>y\<in>set ys. \<exists>x\<in>set xs. f x = Inr y)"
proof (induction xs arbitrary: ys)
  case Nil
  then show ?case by simp
next
  case (Cons x xs)
  then show ?case
    by (auto split: sum.splits)
qed





lemma all_queries_raw:
  assumes "all_queries c q = Inr qs" "q \<noteq> []"
  shows "py_lower q \<in> set qs"
proof -
  from assms(1) obtain resolved where
    "mapE str_lower (filter truthy (PStr q # resolved)) = Inr qs"
    by (auto simp: all_queries_def bindE_Inr)
  with assms(2) show ?thesis
    by (auto split: sum.splits)
qed


lemma search_result:
  assumes q: "dget p ''search'' = PStr q" "py_strip q \<noteq> ''*''" "py_strip q \<noteq> []"
    and r: "ARPTool_try oui lx c p = Inr r"
  shows "\<exists>qs maps arp_data ndp_data.
           all_queries c q = Inr qs \<and> py_lower q \<in> set qs \<and> dhcp_maps c = Inr maps \<and>
           get_arp_table c = Inr arp_data \<and> get_ndp_table c = Inr ndp_data \<and>
           mapE (arp_entry oui lx (fst maps) (snd maps)) (filter (match_any qs) arp_data) = Inr (arp r) \<and>
           mapE (arp_entry oui lx (fst maps) (snd maps)) (filter (match_any qs) ndp_data) = Inr (ndp r)"
proof -
  from q(3) have ne: "q \<noteq> []" by (auto simp: py_strip_def)
  from r q ne obtain maps qs t where maps: "dhcp_maps c = Inr maps"
    and qs: "all_queries c q = Inr qs"
    and t: "matching_tables oui lx c (fst maps) (snd maps) qs = Inr t" and s: "r = success t"
    by (auto simp: ARPTool_try_def lookup_tables_def Let_def bindE_Inr)
  from t s obtain arp_data ndp_data where
    "get_arp_table c = Inr arp_data" "get_ndp_table c = Inr ndp_data"
    "mapE (arp_entry oui lx (fst maps) (snd maps)) (filter (match_any qs) arp_data) = Inr (arp r)"
    "mapE (arp_entry oui lx (fst maps) (snd maps)) (filter (match_any qs) ndp_data) = Inr (ndp r)"
    by (auto simp: matching_tables_Inr success_def)
  with maps qs all_queries_raw[OF qs ne] show ?thesis by blast
qed





lemma resolved_from_lease_has:
  assumes "resolved_from_lease (JDict lease) s = Inr ids"
    and "dget lease ''ip'' = PStr v \<or> dget lease ''mac'' = PStr v" "v \<noteq> []"
  shows "PStr v \<in> set ids"
proof -
  from assms(2) have "lease \<noteq> []" by (auto simp: dget_def)
  with assms show ?thesis
    by (auto simp: resolved_from_lease_def Let_def py_or_def split: if_splits)
qed

lemma add_if_truthy_keeps:
  "add_if_truthy v s = Inr s' \<Longrightarrow> x \<in> set s \<Longrightarrow> x \<in> set s'"
  by (auto simp: add_if_truthy_def split: if_splits jval.splits)

lemma add_if_truthy_adds:
  "add_if_truthy (JAtom (PStr v)) s = Inr s' \<Longrightarrow> v \<noteq> [] \<Longrightarrow> PStr v \<in> set s'"
  by (auto simp: add_if_truthy_def split: if_splits)

lemma resolved_from_lease_keeps:
  "resolved_from_lease v s = Inr s' \<Longrightarrow> x \<in> set s \<Longrightarrow> x \<in> set s'"
  by (auto simp: resolved_from_lease_def Let_def split: if_splits jval.splits)

lemma resolved_identifiers_has:
  assumes "resolved_identifiers info = Inr ids" "v \<noteq> []"
    and "jget info ''ip'' = JAtom (PStr v) \<or> jget info ''mac'' = JAtom (PStr v) \<or>
         (\<exists>lease. jget info ''dhcpv4'' = JDict lease \<and>
                  (dget lease ''ip'' = PStr v \<or> dget lease ''mac'' = PStr v))"
  shows "PStr v \<in> set ids"
proof -
  from assms(1) obtain s1 s2 s3 where
    s1: "add_if_truthy (jget info ''ip'') [] = Inr s1"
    and s2: "add_if_truthy (jget info ''mac'') s1 = Inr s2"
    and s3: "add_if_truthy (jget info ''hostname'') s2 = Inr s3"
    and s4: "resolved_from_lease (jget info ''dhcpv4'') s3 = Inr ids"
    by (auto simp: resolved_identifiers_def bindE_Inr)
  from assms(3) consider
    (ip) "jget info ''ip'' = JAtom (PStr v)" | (mac) "jget info ''mac'' = JAtom (PStr v)"
    | (lease) lease where "jget info ''dhcpv4'' = JDict lease"
        "dget lease ''ip'' = PStr v \<or> dget lease ''mac'' = PStr v"
    by blast
  then show ?thesis
  proof cases
    case ip
    with s1 assms(2) have "PStr v \<in> set s1" by (simp add: add_if_truthy_adds)
    with s2 s3 s4 show ?thesis
      by (blast intro: add_if_truthy_keeps resolved_from_lease_keeps)
  next
    case mac
    with s2 assms(2) have "PStr v \<in> set s2" by (simp add: add_if_truthy_adds)
    with s3 s4 show ?thesis
      by (blast intro: add_if_truthy_keeps resolved_from_lease_keeps)
  next
    case lease
    with s4 assms(2) show ?thesis
      by (simp add: resolved_from_lease_has)
  qed
qed

lemma all_queries_resolved:
  assumes "resolve_host_info c = Some resolve" "resolve q = Inr info"
    and "all_queries c q = Inr qs" "v \<noteq> []"
    and "jget info ''ip'' = JAtom (PStr v) \<or> jget info ''mac'' = JAtom (PStr v) \<or>
         (\<exists>lease. jget info ''dhcpv4'' = JDict lease \<and>
                  (dget lease ''ip'' = PStr v \<or> dget lease ''mac'' = PStr v))"
  shows "py_lower v \<in> set qs"
proof -
  from assms(1-3) obtain ids where ids: "resolved_identifiers info = Inr ids"
    and m: "mapE str_lower (filter truthy (PStr q # ids)) = Inr qs"
    by (auto simp: all_queries_def bindE_Inr)
  from resolved_identifiers_has[OF ids assms(4,5)] assms(4)
  have "PStr v \<in> set (filter truthy (PStr q # ids))" by simp
  with mapE_set[OF m] obtain y where "y \<in> set qs" "str_lower (PStr v) = Inr y" by blast
  then show ?thesis by simp
qed

lemma sublist_self_lower: "py_contains (py_lower v) (py_lower (py_str (PStr v)))"
  by (simp add: py_contains_sublist)

text \<open>
  Claim C2, amended. The query is \<open>trogdor\<close>; the collaborator has
  \<open>resolve_host_info\<close>, and its answer holds the lease's ip, or its mac, or the lease
  itself under \<open>dhcpv4\<close>; a row of the ARP table has that ip and that mac and no
  hostname. Whenever the lookup completes without an exception, that row is in the
  result, validated and enriched, and it carries the \<open>intf\<close> string that \<open>ARPEntry\<close>
  requires. A row without an \<open>intf\<close> string, as the three fields of the example
  alone would be, makes the call return the dummy data instead.
\<close>

theorem hostname_search_finds_neighbor:
  assumes search: "dget p ''search'' = PStr ''trogdor''"
    and resolver: "resolve_host_info c = Some resolve" "resolve ''trogdor'' = Inr info"
    and ids: "jget info ''ip'' = JAtom (PStr ''10.0.0.5'') \<or>
              jget info ''mac'' = JAtom (PStr ''aa:bb:cc:00:11:22'') \<or>
              jget info ''dhcpv4'' = JDict trogdor_lease"
    and table: "get_arp_table c = Inr arp_data" "entry \<in> set arp_data"
    and entry: "dget entry ''ip'' = PStr ''10.0.0.5''" "dget entry ''mac'' = PStr ''aa:bb:cc:00:11:22''"
      "dget entry ''hostname'' = PNone"
  shows "(\<forall>r. ARPTool_try oui lx c p = Inr r \<longrightarrow>
            ARPTool_execute oui lx (Some c) p = r \<and>
            (\<exists>intf. map_of entry ''intf'' = Some (PStr intf)) \<and>
            (\<exists>found\<in>set (arp r).
               (\<exists>maps. arp_entry oui lx (fst maps) (snd maps) entry = Inr found) \<and>
               dget found ''ip'' = PStr ''10.0.0.5'' \<and>
               dget found ''mac'' = PStr ''aa:bb:cc:00:11:22'')) \<and>
         ((\<forall>intf. map_of entry ''intf'' \<noteq> Some (PStr intf)) \<longrightarrow>
            ARPTool_execute oui lx (Some c) p = ARPTool_get_dummy_data)"
proof -
  have q: "py_strip ''trogdor'' \<noteq> ''*''" "py_strip ''trogdor'' \<noteq> []"
    by (simp_all add: str_eval)
  have found: "ARPTool_execute oui lx (Some c) p = r \<and>
            (\<exists>intf. map_of entry ''intf'' = Some (PStr intf)) \<and>
            (\<exists>found\<in>set (arp r).
               (\<exists>maps. arp_entry oui lx (fst maps) (snd maps) entry = Inr found) \<and>
               dget found ''ip'' = PStr ''10.0.0.5'' \<and>
               dget found ''mac'' = PStr ''aa:bb:cc:00:11:22'')"
    if ok: "ARPTool_try oui lx c p = Inr r" for r
  proof -
    from search_result[OF search q ok] table(1) obtain qs maps where
      qs: "all_queries c ''trogdor'' = Inr qs"
      and m: "mapE (arp_entry oui lx (fst maps) (snd maps)) (filter (match_any qs) arp_data) = Inr (arp r)"
      by auto
    from ids consider
      (ip) "jget info ''ip'' = JAtom (PStr ''10.0.0.5'')"
      | (mac) "jget info ''mac'' = JAtom (PStr ''aa:bb:cc:00:11:22'')"
      | (lease) "jget info ''dhcpv4'' = JDict trogdor_lease"
      by blast
    then have "match_any qs entry"
    proof cases
      case ip
      with all_queries_resolved[OF resolver qs, of "''10.0.0.5''"]
      have "py_lower ''10.0.0.5'' \<in> set qs" by simp
      moreover have "py_contains (py_lower ''10.0.0.5'')
          (py_lower (py_str (dget_default entry ''ip'' (PStr []))))"
        using entry(1) sublist_self_lower[of "''10.0.0.5''"]
        by (simp add: dget_def dget_default_def split: option.splits)
      ultimately show ?thesis
        by (auto simp: match_any_def list_ex_iff)
    next
      case mac
      with all_queries_resolved[OF resolver qs, of "''aa:bb:cc:00:11:22''"]
      have "py_lower ''aa:bb:cc:00:11:22'' \<in> set qs" by simp
      moreover have "py_contains (py_lower ''aa:bb:cc:00:11:22'')
          (py_lower (py_str (dget_default entry ''mac'' (PStr []))))"
        using entry(2) sublist_self_lower[of "''aa:bb:cc:00:11:22''"]
        by (simp add: dget_def dget_default_def split: option.splits)
      ultimately show ?thesis
        by (auto simp: match_any_def list_ex_iff)
    next
      case lease
      have "dget trogdor_lease ''ip'' = PStr ''10.0.0.5''"
        by (simp add: trogdor_lease_def dget_def)
      with lease all_queries_resolved[OF resolver qs, of "''10.0.0.5''"]
      have "py_lower ''10.0.0.5'' \<in> set qs" by simp
      moreover have "py_contains (py_lower ''10.0.0.5'')
          (py_lower (py_str (dget_default entry ''ip'' (PStr []))))"
        using entry(1) sublist_self_lower[of "''10.0.0.5''"]
        by (simp add: dget_def dget_default_def split: option.splits)
      ultimately show ?thesis
        by (auto simp: match_any_def list_ex_iff)
    qed
    with table(2) have "entry \<in> set (filter (match_any qs) arp_data)" by simp
    with mapE_set[OF m] obtain found where f: "found \<in> set (arp r)"
      "arp_entry oui lx (fst maps) (snd maps) entry = Inr found" by blast
    from arp_entry_keeps[OF f(2), of "''ip''"] arp_entry_keeps[OF f(2), of "''mac''"] entry
    have "dget found ''ip'' = PStr ''10.0.0.5''" "dget found ''mac'' = PStr ''aa:bb:cc:00:11:22''"
      by (auto simp: dget_def)
    moreover from arp_entry_keeps[OF f(2), of "''intf''"]
    have "\<exists>intf. map_of entry ''intf'' = Some (PStr intf)" by auto
    ultimately show ?thesis using f ok
      by (auto simp: ARPTool_execute_def)
  qed
  have dummy: "ARPTool_execute oui lx (Some c) p = ARPTool_get_dummy_data"
    if no: "\<forall>intf. map_of entry ''intf'' \<noteq> Some (PStr intf)"
  proof (cases "ARPTool_try oui lx c p")
    case (Inl e)
    then show ?thesis by (simp add: ARPTool_execute_def)
  next
    case (Inr r)
    from found[OF Inr] no show ?thesis by blast
  qed
  from found dummy show ?thesis by blast
qed

lemmas resolve_eval = resolved_identifiers_def add_if_truthy_def resolved_from_lease_def jget_def
  index_lease_def

theorem hostname_search_finds_neighbor_witness:
  "ARPTool_execute (\<lambda>m. PNone) lax_exact (Some trogdor_client) [(''search'', PStr ''trogdor'')] =
     \<lparr>arp = [[(''mac'', PStr ''aa:bb:cc:00:11:22''), (''ip'', PStr ''10.0.0.5''),
              (''intf'', PStr ''em0''), (''manufacturer'', PStr []),
              (''hostname'', PStr ''trogdor-pc''), (''expires'', PNone), (''permanent'', PNone),
              (''type'', PNone), (''description'', PNone), (''dhcp_status'', PStr ''Offline'')]],
      ndp = [], arp_status = ''success''\<rparr> \<and>
   dget trogdor_neighbor ''hostname'' = PNone \<and>
   map_of trogdor_neighbor ''intf'' = Some (PStr ''em0'')"
proof -
  let ?p = "[(''search'', PStr ''trogdor'')]"
  have search: "dget ?p ''search'' = PStr ''trogdor''"
    by (simp add: dget_def)
  have resolver: "resolve_host_info trogdor_client = Some (\<lambda>query. Inr [(''dhcpv4'', JDict trogdor_lease)])"
    "(\<lambda>query. Inr [(''dhcpv4'', JDict trogdor_lease)]) ''trogdor'' = Inr [(''dhcpv4'', JDict trogdor_lease)]"
    by (simp_all add: trogdor_client_def)
  have ids: "jget [(''dhcpv4'', JDict trogdor_lease)] ''ip'' = JAtom (PStr ''10.0.0.5'') \<or>
      jget [(''dhcpv4'', JDict trogdor_lease)] ''mac'' = JAtom (PStr ''aa:bb:cc:00:11:22'') \<or>
      jget [(''dhcpv4'', JDict trogdor_lease)] ''dhcpv4'' = JDict trogdor_lease"
    by (simp add: jget_def)
  have table: "get_arp_table trogdor_client =
      Inr [[(''ip'', PStr ''10.0.0.9''), (''mac'', PStr ''aa:bb:cc:00:11:99''),
            (''hostname'', PNone), (''intf'', PStr ''em0'')], trogdor_neighbor]"
    "trogdor_neighbor \<in> set [[(''ip'', PStr ''10.0.0.9''), (''mac'', PStr ''aa:bb:cc:00:11:99''),
            (''hostname'', PNone), (''intf'', PStr ''em0'')], trogdor_neighbor]"
    by (simp_all add: trogdor_client_def)
  have entry: "dget trogdor_neighbor ''ip'' = PStr ''10.0.0.5''"
    "dget trogdor_neighbor ''mac'' = PStr ''aa:bb:cc:00:11:22''"
    "dget trogdor_neighbor ''hostname'' = PNone"
    by (simp_all add: trogdor_neighbor_def dget_def)
  have intf: "map_of trogdor_neighbor ''intf'' = Some (PStr ''em0'')"
    by (simp add: trogdor_neighbor_def)
  have ok: "ARPTool_try (\<lambda>m. PNone) lax_exact trogdor_client ?p =
      Inr \<lparr>arp = [[(''mac'', PStr ''aa:bb:cc:00:11:22''), (''ip'', PStr ''10.0.0.5''),
              (''intf'', PStr ''em0''), (''manufacturer'', PStr []),
              (''hostname'', PStr ''trogdor-pc''), (''expires'', PNone), (''permanent'', PNone),
              (''type'', PNone), (''description'', PNone), (''dhcp_status'', PStr ''Offline'')]],
            ndp = [], arp_status = ''success''\<rparr>"
    by (simp add: arp_eval resolve_eval trogdor_client_def trogdor_lease_def
          trogdor_neighbor_def str_eval)
  from hostname_search_finds_neighbor[OF search resolver ids table entry,
      of "\<lambda>m. PNone" lax_exact] ok entry(3) intf
  show ?thesis by blast
qed

text \<open>
  The example as the specification writes it: the neighbor entry has an ip, a mac and
  an empty hostname and nothing else. The query expands to the lease's identifiers and
  the entry matches them, but \<open>ARPEntry\<close> rejects it, and the call returns the dummy
  data, in which the entry is not.
\<close>

theorem bare_neighbor_not_returned:
  "ARPTool_execute no_vendor lax_exact (Some bare_client) [(''search'', PStr ''trogdor'')] =
     \<lparr>arp = [[(''ip'', PStr ''192.168.1.1''), (''mac'', PStr ''aa:bb:cc:dd:ee:ff''),
              (''intf'', PStr ''em0''), (''manufacturer'', PStr ''TestCorp''),
              (''dhcp_status'', PStr ''Online'')]],
      ndp = [[(''ip'', PStr ''fe80::1''), (''mac'', PStr ''aa:bb:cc:dd:ee:ff''),
              (''intf'', PStr ''em0''), (''manufacturer'', PStr ''TestCorp''),
              (''dhcp_status'', PStr ''Online'')]],
      arp_status = ''success''\<rparr> \<and>
   get_arp_table bare_client = Inr [bare_neighbor] \<and>
   get_dhcpv4_leases bare_client = Inr [trogdor_lease] \<and>
   match_any [''trogdor'', ''10.0.0.5'', ''aa:bb:cc:00:11:22'', ''trogdor-pc''] bare_neighbor \<and>
   all_queries bare_client ''trogdor''
     = Inr [''trogdor'', ''10.0.0.5'', ''aa:bb:cc:00:11:22'', ''trogdor-pc''] \<and>
   model_dump lax_exact ''ARPEntry'' ARPEntry bare_neighbor = Inl (ValidationError ''ARPEntry'')"
  by (simp add: arp_eval resolve_eval bare_client_def trogdor_lease_def bare_neighbor_def
        str_eval ARPTool_get_dummy_data_def no_vendor_def)

end
